theory Spec2Isabelle
  imports Main
begin

section \<open>Python string and list primitives used by \<open>lib/beautifier.py\<close>\<close>

text \<open>
  The module is Python 2 code (\<open>print unindent_code\<close>, \<open>hashlib.md5(text)\<close>), so a text is
  a byte string: \<^typ>\<open>string\<close>. The builtins \<open>str.strip\<close>, \<open>str.splitlines\<close>,
  \<open>str.startswith\<close>, \<open>str.join\<close> and \<open>itertools.groupby\<close> are written out below.
\<close>

definition is_space :: "char \<Rightarrow> bool" where
  \<comment> \<open>the whitespace of \<open>str.strip()\<close>: space, TAB, LF, VT, FF, CR\<close>
  "is_space c \<longleftrightarrow> c = CHR '' '' \<or> c = CHR 0x09 \<or> c = CHR 0x0A \<or> c = CHR 0x0B
                  \<or> c = CHR 0x0C \<or> c = CHR 0x0D"

definition strip :: "string \<Rightarrow> string" where
  "strip s = rev (dropWhile is_space (rev (dropWhile is_space s)))"

definition rstrip_nl :: "string \<Rightarrow> string" where
  \<comment> \<open>\<open>x.rstrip('\n')\<close>\<close>
  "rstrip_nl s = rev (dropWhile (\<lambda>c. c = CHR 0x0A) (rev s))"

definition startswith :: "string \<Rightarrow> string \<Rightarrow> bool" where
  "startswith s p \<longleftrightarrow> take (length p) s = p"

definition endswith :: "string \<Rightarrow> string \<Rightarrow> bool" where
  "endswith s p \<longleftrightarrow> length p \<le> length s \<and> drop (length s - length p) s = p"

fun join :: "string \<Rightarrow> string list \<Rightarrow> string" where
  "join sep [] = []"
| "join sep [x] = x"
| "join sep (x # y # zs) = x @ sep @ join sep (y # zs)"

text \<open>
  \<open>str.splitlines()\<close> on a byte string: a line ends at LF, CR or CR LF, the line break is
  dropped, and no empty line is reported after the last line break. The first argument is
  the line read so far.
\<close>

fun splitlines_from :: "string \<Rightarrow> string \<Rightarrow> string list" where
  "splitlines_from cur [] = (if cur = [] then [] else [cur])"
| "splitlines_from cur [c] =
     (if c = CHR 0x0A \<or> c = CHR 0x0D then [cur] else [cur @ [c]])"
| "splitlines_from cur (c # d # cs) =
     (if c = CHR 0x0D \<and> d = CHR 0x0A then cur # splitlines_from [] cs
      else if c = CHR 0x0A \<or> c = CHR 0x0D then cur # splitlines_from [] (d # cs)
      else splitlines_from (cur @ [c]) (d # cs))"

definition splitlines :: "string \<Rightarrow> string list" where
  "splitlines s = splitlines_from [] s"

text \<open>
  \<open>itertools.groupby(xs, key)\<close>, with every group read to its end (as both callers do):
  a new group starts whenever the key changes.
\<close>

function groupby :: "('a \<Rightarrow> 'k) \<Rightarrow> 'a list \<Rightarrow> ('k \<times> 'a list) list" where
  "groupby key [] = []"
| "groupby key (x # xs) =
     (key x, x # takeWhile (\<lambda>y. key y = key x) xs)
       # groupby key (dropWhile (\<lambda>y. key y = key x) xs)"
  by pat_completeness auto
termination
  by (relation "measure (\<lambda>(key, xs). length xs)")
     (auto simp: length_dropWhile_le less_Suc_eq_le)

text \<open>\<open>"%s" % n\<close> for a non-negative integer: its decimal digits.\<close>

function str_nat :: "nat \<Rightarrow> string" where
  "str_nat n = (if n < 10 then [char_of (48 + n)]
                else str_nat (n div 10) @ [char_of (48 + n mod 10)])"
  by pat_completeness auto
termination
  by (relation "measure id") auto

declare str_nat.simps [simp del]

definition str_int :: "int \<Rightarrow> string" where
  "str_int i = (if i < 0 then CHR ''-'' # str_nat (nat (- i)) else str_nat (nat i))"

section \<open>\<open>_cleanup_lines\<close>\<close>

text \<open>
  The two \<open>while\<close> loops of \<open>_cleanup_lines\<close>: \<open>start\<close> walks up from 0, \<open>end\<close> walks
  down from \<open>len(lines) - 1\<close> and may reach \<open>-1\<close>, so it is an \<^typ>\<open>int\<close>.
\<close>

function skip_start :: "string list \<Rightarrow> nat \<Rightarrow> nat" where
  "skip_start lines start =
     (if start < length lines \<and> strip (lines ! start) = '''' then skip_start lines (start + 1)
      else start)"
  by pat_completeness auto
termination
  by (relation "measure (\<lambda>(lines, start). length lines - start)") auto

declare skip_start.simps [simp del]

function skip_end :: "string list \<Rightarrow> int \<Rightarrow> int" where
  "skip_end lines e =
     (if e \<ge> 0 \<and> strip (lines ! nat e) = '''' then skip_end lines (e - 1) else e)"
  by pat_completeness auto
termination
  by (relation "measure (\<lambda>(lines, e). nat (e + 1))") auto

declare skip_end.simps [simp del]

definition cleanup_lines :: "string list \<Rightarrow> string list" where
  "cleanup_lines lines =
     (if lines = [] then lines
      else
        let start = skip_start lines 0;
            lines1 = drop start lines
        in if lines1 = [] then lines1
        else
          let end_idx = skip_end lines1 (int (length lines1) - 1);
              lines2 = take (nat (end_idx + 1)) lines1
          in if lines2 = [] then lines2
          else concat (map (\<lambda>x. if fst x then snd x else [''''])
                           (groupby (\<lambda>x. strip x \<noteq> '''') lines2)))"

section \<open>\<open>_classify_lines\<close>\<close>

text \<open>
  Labels are the integers of the source: \<open>0\<close> text, \<open>1\<close> code, \<open>-1\<close> undefined (a blank
  line), \<open>-2\<close> the mark of pass 2.
\<close>

definition is_digit :: "char \<Rightarrow> bool" where
  "is_digit c \<longleftrightarrow> 48 \<le> (of_char c :: nat) \<and> (of_char c :: nat) \<le> 57"

definition match_number_dot :: "string \<Rightarrow> bool" where
  \<comment> \<open>\<open>re.match(r'[0-9]+\.', s)\<close>: one or more digits at the start, then a dot\<close>
  "match_number_dot s \<longleftrightarrow>
     takeWhile is_digit s \<noteq> [] \<and>
     (case dropWhile is_digit s of [] \<Rightarrow> False | c # _ \<Rightarrow> c = CHR ''.'')"

definition line_type :: "string \<Rightarrow> int" where
  "line_type line =
     (if strip line = '''' then - 1
      else if startswith (strip line) ''* '' \<or> match_number_dot (strip line) then 0
      else if startswith line ''   '' then 1
      else 0)"

text \<open>
  The four \<open>for\<close> loops run over \<open>range(len(line_types) - 1)\<close>, forwards or reversed, and
  write the list in place; each is a \<^const>\<open>fold\<close> of its body over the indices. For the
  empty list \<open>range(-1)\<close> is empty, as is \<open>[0..<0 - 1]\<close>. Every index read or written is
  below the length.
\<close>

definition pass2_fwd_step :: "nat \<Rightarrow> int list \<Rightarrow> int list" where
  "pass2_fwd_step i lt = (if lt ! i = 1 \<and> lt ! (i + 1) = - 1 then lt[i + 1 := - 2] else lt)"

definition pass2_bwd_step :: "nat \<Rightarrow> int list \<Rightarrow> int list" where
  "pass2_bwd_step i lt = (if lt ! i = - 1 \<and> lt ! (i + 1) = 1 then lt[i := - 2] else lt)"

definition pass2 :: "int list \<Rightarrow> int list" where
  \<comment> \<open>the assignments \<open>changed = True\<close> of pass 2 are dead: pass 3 starts with its own\<close>
  "pass2 lt =
     (let lt1 = fold pass2_fwd_step [0..<length lt - 1] lt;
          lt2 = fold pass2_bwd_step (rev [0..<length lt1 - 1]) lt1
      in map (\<lambda>x. if x = - 2 then 1 else x) lt2)"

definition pass3_fwd_step :: "nat \<Rightarrow> int list \<times> bool \<Rightarrow> int list \<times> bool" where
  "pass3_fwd_step i s =
     (if fst s ! i = 0 \<and> fst s ! (i + 1) = - 1 then ((fst s)[i + 1 := 0], True) else s)"

definition pass3_bwd_step :: "nat \<Rightarrow> int list \<times> bool \<Rightarrow> int list \<times> bool" where
  "pass3_bwd_step i s =
     (if fst s ! i = - 1 \<and> fst s ! (i + 1) = 0 then ((fst s)[i := 0], True) else s)"

definition pass3_body :: "int list \<Rightarrow> int list \<times> bool" where
  \<comment> \<open>one run of the \<open>while\<close> body: \<open>changed = False\<close>, the forward scan, the backward scan\<close>
  "pass3_body lt =
     (let s1 = fold pass3_fwd_step [0..<length lt - 1] (lt, False)
      in fold pass3_bwd_step (rev [0..<length (fst s1) - 1]) s1)"

text \<open>
  The \<open>while changed\<close> loop of pass 3. Every run of the body that reports a change has
  turned at least one \<open>-1\<close> into \<open>0\<close> and none back, so the number of \<open>-1\<close> labels is a
  measure for the loop.
\<close>

definition undefined_count :: "int list \<Rightarrow> nat" where
  "undefined_count lt = length (filter (\<lambda>x. x = - 1) lt)"

definition scan_inv :: "nat \<Rightarrow> nat \<Rightarrow> int list \<times> bool \<Rightarrow> bool" where
  "scan_inv n c s \<longleftrightarrow>
     length (fst s) = n \<and> undefined_count (fst s) \<le> c \<and> (snd s \<longrightarrow> undefined_count (fst s) < c)"

lemma fold_invariant:
  assumes "P s" and "\<And>x s. x \<in> set xs \<Longrightarrow> P s \<Longrightarrow> P (f x s)"
  shows "P (fold f xs s)"
  using assms by (induction xs arbitrary: s) auto

lemma undefined_count_update:
  "i < length lt \<Longrightarrow> lt ! i = - 1 \<Longrightarrow> Suc (undefined_count (lt[i := 0])) = undefined_count lt"
proof (induction lt arbitrary: i)
  case Nil
  then show ?case by simp
next
  case (Cons a lt)
  then show ?case by (cases i) (auto simp: undefined_count_def)
qed

lemma scan_inv_fwd: "Suc i < n \<Longrightarrow> scan_inv n c s \<Longrightarrow> scan_inv n c (pass3_fwd_step i s)"
  using undefined_count_update [of "Suc i" "fst s"]
  by (auto simp: scan_inv_def pass3_fwd_step_def)

lemma scan_inv_bwd: "Suc i < n \<Longrightarrow> scan_inv n c s \<Longrightarrow> scan_inv n c (pass3_bwd_step i s)"
  using undefined_count_update [of i "fst s"]
  by (auto simp: scan_inv_def pass3_bwd_step_def)

lemma scan_inv_body: "scan_inv (length lt) (undefined_count lt) (pass3_body lt)"
proof -
  let ?n = "length lt" and ?c = "undefined_count lt"
  let ?s1 = "fold pass3_fwd_step [0..<?n - 1] (lt, False)"
  have "scan_inv ?n ?c (lt, False)"
    by (simp add: scan_inv_def)
  then have s1: "scan_inv ?n ?c ?s1"
    by (rule fold_invariant) (auto intro: scan_inv_fwd)
  then have len: "length (fst ?s1) = ?n"
    by (simp add: scan_inv_def)
  from s1 have "scan_inv ?n ?c (fold pass3_bwd_step (rev [0..<length (fst ?s1) - 1]) ?s1)"
    unfolding len by (rule fold_invariant) (auto intro: scan_inv_bwd)
  then show ?thesis
    unfolding pass3_body_def Let_def .
qed

lemma pass3_body_decreases:
  "snd (pass3_body lt) \<Longrightarrow> undefined_count (fst (pass3_body lt)) < undefined_count lt"
  using scan_inv_body [of lt] by (simp add: scan_inv_def)

function pass3 :: "int list \<Rightarrow> int list" where
  "pass3 lt = (let s = pass3_body lt in if snd s then pass3 (fst s) else fst s)"
  by pat_completeness auto
termination
  by (relation "measure undefined_count") (auto simp: pass3_body_decreases)

declare pass3.simps [simp del]

definition classify_lines :: "string list \<Rightarrow> int list" where
  "classify_lines lines =
     (let line_types = map line_type lines;
          line_types = pass2 line_types;
          line_types = pass3 line_types
      in map (\<lambda>x. if x = - 1 then 1 else x) line_types)"

section \<open>\<open>_wrap_lines\<close>\<close>

text \<open>
  What lies outside the module is a parameter of the model: \<open>textwrap.fill\<close>, the table
  \<open>VIM_NAME\<close> of \<open>languages_data\<close>, the vim process that \<open>_run_vim_script\<close> starts
  (from the text of the script and the text of the file to the rewritten file),
  \<open>hashlib.md5(...).hexdigest()\<close>, and the Redis client: its state \<^typ>\<open>'r\<close> and its two
  calls, each of which may raise.
\<close>

datatype error = RedisError string

record 'r collaborators =
  fill :: "string \<Rightarrow> string"
  VIM_NAME :: "string \<rightharpoonup> string"
  vim :: "string \<Rightarrow> string \<Rightarrow> string"
  md5_hexdigest :: "string \<Rightarrow> string"
  redis_get :: "'r \<Rightarrow> string \<Rightarrow> error + string option"
  redis_set :: "'r \<Rightarrow> string \<Rightarrow> string \<Rightarrow> error + 'r"

text \<open>
  The argument \<open>unindent_code\<close> is \<open>False\<close>, \<open>True\<close> or a number of columns: it is tested for
  truth, compared with \<open>is True\<close> and otherwise used as the shift.
\<close>

datatype unindent = UBool bool | UInt int

fun shift_of :: "unindent \<Rightarrow> int" where
  \<comment> \<open>\<open>3 if unindent_code is True else unindent_code\<close> when it is true, \<open>-1\<close> when it is false\<close>
  "shift_of (UBool True) = 3"
| "shift_of (UBool False) = - 1"
| "shift_of (UInt n) = (if n \<noteq> 0 then n else - 1)"

definition unindent_code :: "string \<Rightarrow> int \<Rightarrow> string" where
  "unindent_code line shift =
     (if shift = - 1 \<and> line \<noteq> '''' then CHR '' '' # line
      else if shift > 0 \<and> startswith line (replicate (nat shift) CHR '' '')
        then drop (nat shift) line
      else line)"

definition wrap_line ::
  "'r collaborators \<Rightarrow> unindent \<Rightarrow> int \<times> string \<Rightarrow> (int \<times> string) list"
  where
  \<comment> \<open>the body of the loop of \<open>_wrap_lines\<close>: what one classified line appends to \<open>result\<close>\<close>
  "wrap_line env u line_tuple =
     (if fst line_tuple = 1 then [(fst line_tuple, unindent_code (snd line_tuple) (shift_of u))]
      else
        (if strip (snd line_tuple) = '''' then [(fst line_tuple, '''')] else [])
        @ map (\<lambda>line. (fst line_tuple, line)) (splitlines (fill env (snd line_tuple))))"

definition wrap_lines ::
  "'r collaborators \<Rightarrow> (int \<times> string) list \<Rightarrow> unindent \<Rightarrow> (int \<times> string) list"
  where
  "wrap_lines env lines_classes u = concat (map (wrap_line env u) lines_classes)"

section \<open>The commenting script and the vim run\<close>

definition language_name :: "'r collaborators \<Rightarrow> string \<Rightarrow> string" where
  "language_name env name = (case VIM_NAME env name of Some v \<Rightarrow> v | None \<Rightarrow> name)"

definition run_vim_script :: "'r collaborators \<Rightarrow> string list \<Rightarrow> string list \<Rightarrow> string" where
  "run_vim_script env script_lines text_lines =
     vim env (join [CHR 0x0A] script_lines) (join [CHR 0x0A] text_lines)"

definition commenting_step ::
  "string \<Rightarrow> int \<times> (int \<times> string) list \<Rightarrow> string list \<times> int \<Rightarrow> string list \<times> int"
  where
  \<comment> \<open>the loop body of \<open>_commenting_script\<close> on the state \<open>(script_lines, block_start)\<close>\<close>
  "commenting_step filetype block s =
     (let script_lines = fst s;
          block_start = snd s;
          block_end = block_start + int (length (snd block)) - 1;
          comment_type = (if block_end - block_start < 1 \<or> filetype = ''ruby''
                          then ''comment'' else ''sexy'');
          range = str_int block_start @ '','' @ str_int block_end;
          script_lines =
            (if fst block = 0
             then (range @ '' call NERDComment(1, '' @ [CHR 0x27] @ ''uncomment'' @ [CHR 0x27] @ '')'')
                # (range @ '' call NERDComment(1, '' @ [CHR 0x27] @ comment_type @ [CHR 0x27] @ '')'')
                # script_lines
             else script_lines)
      in (script_lines, block_end + 1))"

definition commenting_script ::
  "'r collaborators \<Rightarrow> (int \<times> (int \<times> string) list) list \<Rightarrow> string \<Rightarrow> string list"
  where
  "commenting_script env lines_blocks filetype =
     (let script_lines = fst (fold (commenting_step filetype) lines_blocks ([], 1))
      in (''set ft='' @ language_name env filetype) # script_lines @ [''wq''])"

section \<open>\<open>_beautify\<close>, \<open>code_blocks\<close> and \<open>beautify\<close>\<close>

definition text_lines :: "string \<Rightarrow> string list" where
  \<comment> \<open>\<open>[x.rstrip('\n') for x in text.splitlines()]\<close>\<close>
  "text_lines text = map rstrip_nl (splitlines text)"

definition beautify_lines_classes ::
  "'r collaborators \<Rightarrow> string \<Rightarrow> unindent \<Rightarrow> (int \<times> string) list"
  where
  \<comment> \<open>lines 242 to 245 of \<open>_beautify\<close>\<close>
  "beautify_lines_classes env text u =
     (let lines = text_lines text;
          lines = cleanup_lines lines;
          lines_classes = zip (classify_lines lines) lines
      in wrap_lines env lines_classes u)"

definition beautify' :: "'r collaborators \<Rightarrow> string \<Rightarrow> string \<Rightarrow> bool \<Rightarrow> bool \<Rightarrow> string" where
  \<comment> \<open>\<open>_beautify(text, filetype, add_comments, remove_text)\<close>; the \<open>print\<close> is left out\<close>
  "beautify' env text filetype add_comments remove_text =
     (let u = UBool (add_comments \<or> remove_text);
          lines_classes = beautify_lines_classes env text u
      in if remove_text then
           (let lines = map snd (filter (\<lambda>line. fst line = 1) lines_classes);
                lines = cleanup_lines lines;
                output = join [CHR 0x0A] lines
            in if \<not> endswith output [CHR 0x0A] then output @ [CHR 0x0A] else output)
         else if \<not> add_comments then join [CHR 0x0A] (map snd lines_classes)
         else
           (let lines_blocks = groupby fst lines_classes;
                script_lines = commenting_script env lines_blocks filetype
            in run_vim_script env script_lines (map snd lines_classes)))"

definition code_blocks_lines_classes ::
  "'r collaborators \<Rightarrow> string \<Rightarrow> bool \<Rightarrow> unindent \<Rightarrow> (int \<times> string) list"
  where
  \<comment> \<open>lines 271 to 275 of \<open>code_blocks\<close>\<close>
  "code_blocks_lines_classes env text wrap u =
     (let lines = text_lines text;
          lines_classes = zip (classify_lines lines) lines
      in if wrap then wrap_lines env lines_classes u else lines_classes)"

definition code_blocks ::
  "'r collaborators \<Rightarrow> string \<Rightarrow> bool \<Rightarrow> unindent \<Rightarrow> (int \<times> string) list"
  where
  "code_blocks env text wrap u =
     (let lines_classes = code_blocks_lines_classes env text wrap u;
          lines_blocks = groupby fst lines_classes
      in map (\<lambda>x. (fst x, join [CHR 0x0A] (map snd (snd x)) @ [CHR 0x0A])) lines_blocks)"

text \<open>
  \<open>beautify(text, lang, options)\<close>: \<open>options\<close> is \<open>None\<close> or a dictionary from option names to
  flags. A call of the Redis client that raises ends \<open>beautify\<close> with that exception: the
  function has no \<open>try\<close>. The result carries the state of the Redis client after the call.
\<close>

definition flag :: "(string \<rightharpoonup> bool) \<Rightarrow> string \<Rightarrow> bool" where
  \<comment> \<open>the truth of \<open>d.get(k)\<close>, and the value of a keyword argument whose default is \<open>False\<close>\<close>
  "flag d k = (case d k of Some v \<Rightarrow> v | None \<Rightarrow> False)"

definition beauty_options_of :: "(string \<rightharpoonup> bool) option \<Rightarrow> (string \<rightharpoonup> bool)" where
  \<comment> \<open>lines 290 to 292: \<open>options or {}\<close>, restricted to the two known keys\<close>
  "beauty_options_of options =
     (let options = (case options of None \<Rightarrow> Map.empty | Some d \<Rightarrow> d)
      in options |` {''add_comments'', ''remove_text''})"

definition mode_of :: "(string \<rightharpoonup> bool) \<Rightarrow> string" where
  \<comment> \<open>lines 294 to 298\<close>
  "mode_of beauty_options =
     (if flag beauty_options ''add_comments'' then ''c'' else '''')
     @ (if flag beauty_options ''remove_text'' then ''q'' else '''')"

definition digest_of :: "'r collaborators \<Rightarrow> string \<Rightarrow> string \<Rightarrow> (string \<rightharpoonup> bool) \<Rightarrow> string" where
  \<comment> \<open>line 304: \<open>"t:%s:%s:%s" % (hashlib.md5(text).hexdigest(), lang, mode)\<close>\<close>
  "digest_of env text lang beauty_options =
     ''t:'' @ md5_hexdigest env text @ '':'' @ lang @ '':'' @ mode_of beauty_options"

definition beautify_miss ::
  "'r collaborators \<Rightarrow> 'r \<Rightarrow> string \<Rightarrow> string \<Rightarrow> (string \<rightharpoonup> bool) \<Rightarrow> string \<Rightarrow> error + (string \<times> 'r)"
  where
  \<comment> \<open>lines 309 to 312: no usable cached answer\<close>
  "beautify_miss env r text lang beauty_options digest =
     (let answer = beautify' env text lang
                     (flag beauty_options ''add_comments'') (flag beauty_options ''remove_text'')
      in case redis_set env r digest answer of
           Inl e \<Rightarrow> Inl e
         | Inr r' \<Rightarrow> Inr (answer, r'))"

definition beautify ::
  "'r collaborators \<Rightarrow> 'r \<Rightarrow> string \<Rightarrow> string \<Rightarrow> (string \<rightharpoonup> bool) option \<Rightarrow> error + (string \<times> 'r)"
  where
  \<comment> \<open>\<open>if answer\<close> is false for \<open>None\<close> and for the empty string\<close>
  "beautify env r text lang options =
     (let beauty_options = beauty_options_of options
      in if beauty_options = Map.empty then Inr (text, r)
         else
           (let digest = digest_of env text lang beauty_options
            in case redis_get env r digest of
                 Inl e \<Rightarrow> Inl e
               | Inr None \<Rightarrow> beautify_miss env r text lang beauty_options digest
               | Inr (Some answer) \<Rightarrow>
                   (if answer \<noteq> '''' then Inr (answer, r)
                    else beautify_miss env r text lang beauty_options digest)))"

section \<open>A concrete set of collaborators\<close>

text \<open>
  Closed examples need concrete collaborators. \<open>plain_env\<close> runs on texts whose text lines
  are short and single-spaced, which \<open>textwrap.fill\<close> returns as they are; its vim answers
  with a fixed marker, its table of vim names is empty, and its Redis client holds nothing
  and stores nothing. \<open>down_env\<close> is the same with a Redis client that raises on every call,
  \<open>readonly_env\<close> the same with a Redis client that answers a lookup and raises on a store,
  \<open>warm_env\<close> the same with a Redis client that holds an answer for every key, and
  \<open>blank_env\<close> the same with one that holds the empty string for every key.
\<close>

definition plain_env :: "unit collaborators" where
  "plain_env =
     \<lparr> fill = (\<lambda>s. s),
       VIM_NAME = Map.empty,
       vim = (\<lambda>script file. ''<vim output>''),
       md5_hexdigest = (\<lambda>s. ''d41d8cd98f00b204e9800998ecf8427e''),
       redis_get = (\<lambda>r k. Inr None),
       redis_set = (\<lambda>r k v. Inr r) \<rparr>"

definition down_env :: "unit collaborators" where
  "down_env =
     plain_env \<lparr> redis_get := (\<lambda>r k. Inl (RedisError ''Connection refused'')),
                 redis_set := (\<lambda>r k v. Inl (RedisError ''Connection refused'')) \<rparr>"

definition readonly_env :: "unit collaborators" where
  "readonly_env =
     plain_env \<lparr> redis_set := (\<lambda>r k v. Inl (RedisError ''READONLY'')) \<rparr>"

definition warm_env :: "unit collaborators" where
  "warm_env = plain_env \<lparr> redis_get := (\<lambda>r k. Inr (Some ''cached answer'')) \<rparr>"

definition blank_env :: "unit collaborators" where
  "blank_env = plain_env \<lparr> redis_get := (\<lambda>r k. Inr (Some '''')) \<rparr>"

definition explanation_text :: string where
  "explanation_text =
     ''Some explanation.\<newline>\<newline>    x = 1\<newline>    y = 2\<newline>\<newline>More text.\<newline>''"

section \<open>Removing the text of a small document\<close>

lemma explanation_lines:
  "cleanup_lines (text_lines explanation_text) =
     [''Some explanation.'', '''', ''    x = 1'', ''    y = 2'', '''', ''More text.'']"
  by code_simp

lemma explanation_classes:
  "classify_lines [''Some explanation.'', '''', ''    x = 1'', ''    y = 2'', '''', ''More text.'']
     = [0, 1, 1, 1, 1, 0]"
  by code_simp

lemma wrap_line_code:
  "wrap_line env u (1, line) = [(1, unindent_code line (shift_of u))]"
  by (simp add: wrap_line_def)

lemma filter_code_wrap_line_text:
  "filter (\<lambda>line. fst line = 1) (wrap_line env u (0, line)) = []"
  by (simp add: wrap_line_def filter_empty_conv)

lemma explanation_code_lines:
  "map snd (filter (\<lambda>line. fst line = 1) (beautify_lines_classes env explanation_text (UBool True)))
     = ['''', '' x = 1'', '' y = 2'', '''']"
proof -
  have unindent: "unindent_code '''' 3 = ''''" "unindent_code ''    x = 1'' 3 = '' x = 1''"
    "unindent_code ''    y = 2'' 3 = '' y = 2''"
    by code_simp+
  show ?thesis
    unfolding beautify_lines_classes_def Let_def explanation_lines explanation_classes
    by (simp add: wrap_lines_def wrap_line_code filter_code_wrap_line_text unindent)
qed

text \<open>
  C1, what the code does. The docstring of \<open>_wrap_lines\<close> reads: if \<open>unindent_code\<close> is
  \<open>True\<close>, remove leading four spaces; that would give \<open>"x = 1\ny = 2\n"\<close> on the small
  document. The code sets the shift to 3 when \<open>unindent_code is True\<close>, so a code line
  indented by four spaces keeps one: the output of \<open>_beautify\<close> with \<open>remove_text\<close> is
  \<open>" x = 1\n y = 2\n"\<close>, whatever \<open>textwrap.fill\<close> does to the two text lines and whatever
  the file type.
\<close>

theorem remove_text_keeps_one_space:
  "beautify' env explanation_text filetype False True = '' x = 1\<newline> y = 2\<newline>''"
proof -
  have "cleanup_lines ['''', '' x = 1'', '' y = 2'', ''''] = ['' x = 1'', '' y = 2'']"
    by code_simp
  moreover have "\<not> endswith '' x = 1\<newline> y = 2'' ''\<newline>''"
    by code_simp
  ultimately show ?thesis
    unfolding beautify'_def Let_def
    by (simp add: explanation_code_lines)
qed

theorem remove_text_output_is_not_flush_left:
  "beautify' plain_env explanation_text ''python'' False True \<noteq> ''x = 1\<newline>y = 2\<newline>''"
  by code_simp

section \<open>The block segmenter\<close>

lemma groupby_concat: "concat (map snd (groupby key xs)) = xs"
  by (induction key xs rule: groupby.induct) simp_all

lemma groupby_first_key: "groupby key xs \<noteq> [] \<Longrightarrow> fst (hd (groupby key xs)) = key (hd xs)"
  by (cases xs) simp_all

lemma groupby_Nil_iff: "groupby key xs = [] \<longleftrightarrow> xs = []"
  by (cases xs) simp_all

lemma groupby_keys_change: "distinct_adj (map fst (groupby key xs))"
proof (induction key xs rule: groupby.induct)
  case (1 key)
  then show ?case by simp
next
  case (2 key x xs)
  let ?rest = "dropWhile (\<lambda>y. key y = key x) xs"
  show ?case
  proof (cases "?rest = []")
    case True
    show ?thesis
      by (simp only: groupby.simps True list.map distinct_adj_singleton)
  next
    case False
    then have "key (hd ?rest) \<noteq> key x"
      using hd_dropWhile [of "\<lambda>y. key y = key x" xs] by simp
    moreover have "fst (hd (groupby key ?rest)) = key (hd ?rest)"
      using False by (simp add: groupby_first_key groupby_Nil_iff)
    ultimately show ?thesis
      using 2 False by (simp add: distinct_adj_Cons groupby_Nil_iff hd_map)
  qed
qed

lemma groupby_lengths: "sum_list (map (\<lambda>b. length (snd b)) (groupby key xs)) = length xs"
proof -
  have "length (concat (map snd (groupby key xs))) = length xs"
    by (simp add: groupby_concat)
  then show ?thesis
    by (simp add: length_concat comp_def)
qed

lemma groupby_groups_nonempty: "b \<in> set (groupby key xs) \<Longrightarrow> snd b \<noteq> []"
  by (induction key xs rule: groupby.induct) auto

lemma splitlines_from_no_newline:
  "CHR 0x0A \<notin> set cur \<Longrightarrow> l \<in> set (splitlines_from cur s) \<Longrightarrow> CHR 0x0A \<notin> set l"
  by (induction cur s rule: splitlines_from.induct) (auto split: if_splits)

lemma splitlines_no_newline: "l \<in> set (splitlines s) \<Longrightarrow> CHR 0x0A \<notin> set l"
  using splitlines_from_no_newline [of "[]" l s] by (simp add: splitlines_def)

lemma set_rstrip_nl: "set (rstrip_nl s) \<subseteq> set s"
  unfolding rstrip_nl_def using set_dropWhileD [of _ _ "rev s"] by auto

lemma text_lines_no_newline: "l \<in> set (text_lines text) \<Longrightarrow> CHR 0x0A \<notin> set l"
  using set_rstrip_nl splitlines_no_newline by (fastforce simp: text_lines_def)

lemma set_unindent_code: "set (unindent_code line shift) \<subseteq> insert CHR '' '' (set line)"
  using set_drop_subset [of "nat shift" line] by (auto simp: unindent_code_def)

lemma wrap_line_no_newline:
  "CHR 0x0A \<notin> set (snd p) \<Longrightarrow> q \<in> set (wrap_line env u p) \<Longrightarrow> CHR 0x0A \<notin> set (snd q)"
  using set_unindent_code [of "snd p" "shift_of u"] splitlines_no_newline
  by (auto simp: wrap_line_def split: if_splits)

lemma wrap_lines_no_newline:
  "\<forall>p\<in>set lcs. CHR 0x0A \<notin> set (snd p) \<Longrightarrow> q \<in> set (wrap_lines env lcs u)
    \<Longrightarrow> CHR 0x0A \<notin> set (snd q)"
  by (auto simp: wrap_lines_def dest: wrap_line_no_newline)

lemma code_blocks_lines_no_newline:
  "q \<in> set (code_blocks_lines_classes env text wrap u) \<Longrightarrow> CHR 0x0A \<notin> set (snd q)"
proof -
  let ?lines = "text_lines text"
  have "\<forall>p\<in>set (zip (classify_lines ?lines) ?lines). CHR 0x0A \<notin> set (snd p)"
    using text_lines_no_newline by (auto dest: set_zip_rightD)
  then show "q \<in> set (code_blocks_lines_classes env text wrap u) \<Longrightarrow> CHR 0x0A \<notin> set (snd q)"
    using wrap_lines_no_newline [of "zip (classify_lines ?lines) ?lines" q env u]
    by (auto simp: code_blocks_lines_classes_def Let_def split: if_splits)
qed

lemma count_sep_join:
  "ls \<noteq> [] \<Longrightarrow> \<forall>l\<in>set ls. c \<notin> set l \<Longrightarrow> count_list (join [c] ls @ [c]) c = length ls"
proof (induction ls rule: induct_list012)
  case 1
  then show ?case by simp
next
  case (2 x)
  then show ?case by (simp add: count_list_append count_list_0_iff)
next
  case (3 x y zs)
  then show ?case by (simp add: count_list_append count_list_0_iff)
qed

lemma groupby_subset:
  assumes "b \<in> set (groupby key xs)"
  shows "set (snd b) \<subseteq> set xs"
proof -
  from assms have "set (snd b) \<subseteq> set (concat (map snd (groupby key xs)))"
    by auto
  then show ?thesis
    by (simp only: groupby_concat)
qed

lemma code_blocks_labels:
  "map fst (code_blocks env text wrap u) = map fst (groupby fst (code_blocks_lines_classes env text wrap u))"
  by (simp add: code_blocks_def Let_def comp_def)

lemma code_blocks_newlines:
  "sum_list (map (\<lambda>b. count_list (snd b) CHR 0x0A) (code_blocks env text wrap u))
     = length (code_blocks_lines_classes env text wrap u)"
proof -
  let ?lcs = "code_blocks_lines_classes env text wrap u"
  have "count_list (join [CHR 0x0A] (map snd (snd b)) @ [CHR 0x0A]) CHR 0x0A = length (snd b)"
    if "b \<in> set (groupby fst ?lcs)" for b
  proof -
    have "snd b \<noteq> []"
      using that by (rule groupby_groups_nonempty)
    moreover have "\<forall>l\<in>set (map snd (snd b)). CHR 0x0A \<notin> set l"
      using groupby_subset [OF that] code_blocks_lines_no_newline [of _ env "text" wrap u] by auto
    ultimately show ?thesis
      using count_sep_join [of "map snd (snd b)" "CHR 0x0A"] by simp
  qed
  then have "map (\<lambda>b. count_list (snd b) CHR 0x0A) (code_blocks env text wrap u)
      = map (\<lambda>b. length (snd b)) (groupby fst ?lcs)"
    by (simp add: code_blocks_def Let_def comp_def)
  then show ?thesis
    by (simp add: groupby_lengths)
qed

text \<open>
  C7. The blocks returned by \<open>code_blocks\<close> change label from each block to the next, and
  their line counts (every block text ends each of its lines with a line feed) add up to
  the number of classified lines that were grouped. For any list of \<open>(label, line)\<close> pairs,
  the groups of \<open>groupby\<close> on the label change label from each to the next, their sizes add
  up to the length of the list, and put one after another they are the list itself, so the
  order is kept.
\<close>

theorem blocks_change_label_and_keep_lines:
  "distinct_adj (map fst (code_blocks env text wrap u))
   \<and> sum_list (map (\<lambda>b. count_list (snd b) CHR 0x0A) (code_blocks env text wrap u))
       = length (code_blocks_lines_classes env text wrap u)
   \<and> distinct_adj (map fst (groupby fst lines_classes))
   \<and> sum_list (map (\<lambda>b. length (snd b)) (groupby fst lines_classes)) = length lines_classes
   \<and> concat (map snd (groupby fst lines_classes)) = lines_classes"
  by (simp add: code_blocks_labels groupby_keys_change code_blocks_newlines groupby_lengths
      groupby_concat)

section \<open>The labels the classifier returns\<close>

lemma line_type_range: "line_type l \<in> {- 1, 0, 1}"
  by (simp add: line_type_def)

definition labels_inv :: "nat \<Rightarrow> int set \<Rightarrow> int list \<Rightarrow> bool" where
  "labels_inv n S lt \<longleftrightarrow> length lt = n \<and> set lt \<subseteq> S"

lemma labels_inv_update: "labels_inv n S lt \<Longrightarrow> v \<in> S \<Longrightarrow> labels_inv n S (lt[i := v])"
  using set_update_subset_insert [of lt i v] by (auto simp: labels_inv_def)

lemma labels_inv_pass2_fwd: "labels_inv n S lt \<Longrightarrow> - 2 \<in> S \<Longrightarrow> labels_inv n S (pass2_fwd_step i lt)"
  by (simp add: pass2_fwd_step_def labels_inv_update)

lemma labels_inv_pass2_bwd: "labels_inv n S lt \<Longrightarrow> - 2 \<in> S \<Longrightarrow> labels_inv n S (pass2_bwd_step i lt)"
  by (simp add: pass2_bwd_step_def labels_inv_update)

lemma labels_inv_pass3_fwd:
  "labels_inv n S (fst s) \<Longrightarrow> 0 \<in> S \<Longrightarrow> labels_inv n S (fst (pass3_fwd_step i s))"
  by (simp add: pass3_fwd_step_def labels_inv_update)

lemma labels_inv_pass3_bwd:
  "labels_inv n S (fst s) \<Longrightarrow> 0 \<in> S \<Longrightarrow> labels_inv n S (fst (pass3_bwd_step i s))"
  by (simp add: pass3_bwd_step_def labels_inv_update)

lemma pass2_labels:
  assumes "set lt \<subseteq> {- 1, 0, 1}"
  shows "length (pass2 lt) = length lt \<and> set (pass2 lt) \<subseteq> {- 1, 0, 1}"
proof -
  let ?S = "{- 2, - 1, 0, 1} :: int set"
  let ?lt1 = "fold pass2_fwd_step [0..<length lt - 1] lt"
  let ?lt2 = "fold pass2_bwd_step (rev [0..<length ?lt1 - 1]) ?lt1"
  have "labels_inv (length lt) ?S lt"
    using assms by (auto simp: labels_inv_def)
  then have "labels_inv (length lt) ?S ?lt1"
    by (rule fold_invariant) (simp add: labels_inv_pass2_fwd)
  then have "labels_inv (length lt) ?S ?lt2"
    by (rule fold_invariant) (simp add: labels_inv_pass2_bwd)
  then have "length ?lt2 = length lt" and "set ?lt2 \<subseteq> ?S"
    by (simp_all add: labels_inv_def)
  then have "length (map (\<lambda>x. if x = - 2 then 1 else x) ?lt2) = length lt"
    and "set (map (\<lambda>x. if x = - 2 then 1 else x) ?lt2) \<subseteq> {- 1, 0, 1}"
    by auto
  then show ?thesis
    unfolding pass2_def Let_def by simp
qed

lemma pass3_body_labels:
  assumes "labels_inv n S lt" and "0 \<in> S"
  shows "labels_inv n S (fst (pass3_body lt))"
proof -
  let ?s1 = "fold pass3_fwd_step [0..<length lt - 1] (lt, False)"
  have "labels_inv n S (fst (lt, False))"
    using assms by simp
  then have "labels_inv n S (fst ?s1)"
    by (rule fold_invariant [where P = "\<lambda>s. labels_inv n S (fst s)"])
       (simp add: labels_inv_pass3_fwd assms)
  then have "labels_inv n S (fst (fold pass3_bwd_step (rev [0..<length (fst ?s1) - 1]) ?s1))"
    by (rule fold_invariant [where P = "\<lambda>s. labels_inv n S (fst s)"])
       (simp add: labels_inv_pass3_bwd assms)
  then show ?thesis
    unfolding pass3_body_def Let_def .
qed

lemma pass3_labels: "labels_inv n S lt \<Longrightarrow> 0 \<in> S \<Longrightarrow> labels_inv n S (pass3 lt)"
proof (induction lt rule: pass3.induct)
  case (1 lt)
  have body: "labels_inv n S (fst (pass3_body lt))"
    using 1 by (simp add: pass3_body_labels)
  show ?case
  proof (cases "snd (pass3_body lt)")
    case True
    then have "pass3 lt = pass3 (fst (pass3_body lt))"
      by (subst pass3.simps) (simp add: Let_def)
    then show ?thesis
      using 1 True body by simp
  next
    case False
    then have "pass3 lt = fst (pass3_body lt)"
      by (subst pass3.simps) (simp add: Let_def)
    then show ?thesis
      using body by simp
  qed
qed

text \<open>
  C2. For every list of lines, \<open>_classify_lines\<close> returns as many labels as there are
  lines, every label is \<open>0\<close> (TEXT) or \<open>1\<close> (CODE), and the undefined label \<open>-1\<close> is not
  among them.
\<close>

theorem classify_lines_labels:
  "length (classify_lines lines) = length lines
   \<and> set (classify_lines lines) \<subseteq> {0, 1}
   \<and> - 1 \<notin> set (classify_lines lines)"
proof -
  let ?lt0 = "map line_type lines"
  have "set ?lt0 \<subseteq> {- 1, 0, 1}"
    using line_type_range by auto
  then have "length (pass2 ?lt0) = length lines" and "set (pass2 ?lt0) \<subseteq> {- 1, 0, 1}"
    using pass2_labels [of ?lt0] by simp_all
  then have "labels_inv (length lines) {- 1, 0, 1} (pass2 ?lt0)"
    by (simp add: labels_inv_def)
  then have "labels_inv (length lines) {- 1, 0, 1} (pass3 (pass2 ?lt0))"
    by (rule pass3_labels) simp
  then have "length (pass3 (pass2 ?lt0)) = length lines"
    and "set (pass3 (pass2 ?lt0)) \<subseteq> {- 1, 0, 1}"
    by (simp_all add: labels_inv_def)
  then have "length (map (\<lambda>x. if x = - 1 then 1 else x) (pass3 (pass2 ?lt0))) = length lines"
    and "set (map (\<lambda>x. if x = - 1 then 1 else x) (pass3 (pass2 ?lt0))) \<subseteq> {0, 1}"
    by auto
  then show ?thesis
    unfolding classify_lines_def Let_def by auto
qed

section \<open>Termination of pass 3\<close>

text \<open>
  \<open>pass3\<close> above is total: its termination proof is the measure \<open>undefined_count\<close>. To count
  the runs of the \<open>while\<close> body, \<open>pass3_fuel k\<close> is the same loop stopped after \<open>k\<close> runs of
  the body (\<open>None\<close> when the loop would go on). \<open>label_changes\<close> counts the positions whose
  label differs between two label lists; pass 3 writes a position only while it holds
  \<open>-1\<close> and writes \<open>0\<close>, so this is the number of its writes.
\<close>

fun pass3_fuel :: "nat \<Rightarrow> int list \<Rightarrow> int list option" where
  "pass3_fuel 0 lt = None"
| "pass3_fuel (Suc k) lt =
     (let s = pass3_body lt in if snd s then pass3_fuel k (fst s) else Some (fst s))"

definition label_changes :: "int list \<Rightarrow> int list \<Rightarrow> nat" where
  "label_changes old new = length (filter (\<lambda>p. fst p \<noteq> snd p) (zip old new))"

lemma pass3_unfold:
  "pass3 lt = (if snd (pass3_body lt) then pass3 (fst (pass3_body lt)) else fst (pass3_body lt))"
  by (subst pass3.simps) (simp add: Let_def)

lemma pass3_fuel_enough: "undefined_count lt \<le> k \<Longrightarrow> pass3_fuel (Suc k) lt = Some (pass3 lt)"
proof (induction k arbitrary: lt)
  case 0
  then have "\<not> snd (pass3_body lt)"
    using pass3_body_decreases [of lt] by auto
  then show ?case
    by (simp add: Let_def pass3_unfold [of lt])
next
  case (Suc k)
  show ?case
  proof (cases "snd (pass3_body lt)")
    case True
    then have "undefined_count (fst (pass3_body lt)) \<le> k"
      using pass3_body_decreases [of lt] Suc.prems by simp
    then have "pass3_fuel (Suc k) (fst (pass3_body lt)) = Some (pass3 (fst (pass3_body lt)))"
      by (rule Suc.IH)
    then show ?thesis
      using True by (simp add: Let_def pass3_unfold [of lt])
  next
    case False
    then show ?thesis
      by (simp add: Let_def pass3_unfold [of lt])
  qed
qed

lemma undefined_count_le_length: "undefined_count lt \<le> length lt"
  by (simp add: undefined_count_def)

definition keeps_defined :: "int list \<Rightarrow> int list \<Rightarrow> bool" where
  "keeps_defined old new \<longleftrightarrow>
     length new = length old \<and> (\<forall>i<length old. old ! i \<noteq> - 1 \<longrightarrow> new ! i = old ! i)"

lemma keeps_defined_refl: "keeps_defined lt lt"
  by (simp add: keeps_defined_def)

lemma keeps_defined_update:
  "keeps_defined old new \<Longrightarrow> j < length new \<Longrightarrow> new ! j = - 1 \<Longrightarrow> keeps_defined old (new[j := v])"
  by (auto simp: keeps_defined_def nth_list_update)

lemma keeps_defined_fwd:
  assumes "Suc i < length old" and "keeps_defined old (fst s)"
  shows "keeps_defined old (fst (pass3_fwd_step i s))"
proof (cases "fst s ! i = 0 \<and> fst s ! (i + 1) = - 1")
  case True
  then have eq: "pass3_fwd_step i s = ((fst s)[i + 1 := 0], True)"
    unfolding pass3_fwd_step_def by simp
  have "i + 1 < length (fst s)"
    using assms by (simp add: keeps_defined_def)
  with assms(2) have "keeps_defined old ((fst s)[i + 1 := 0])"
    using True by (intro keeps_defined_update) simp_all
  then show ?thesis
    unfolding eq by simp
next
  case False
  then show ?thesis
    using assms(2) by (auto simp: pass3_fwd_step_def)
qed

lemma keeps_defined_bwd:
  assumes "Suc i < length old" and "keeps_defined old (fst s)"
  shows "keeps_defined old (fst (pass3_bwd_step i s))"
proof (cases "fst s ! i = - 1 \<and> fst s ! (i + 1) = 0")
  case True
  then have eq: "pass3_bwd_step i s = ((fst s)[i := 0], True)"
    unfolding pass3_bwd_step_def by simp
  have "i < length (fst s)"
    using assms by (simp add: keeps_defined_def)
  with assms(2) have "keeps_defined old ((fst s)[i := 0])"
    using True by (intro keeps_defined_update) simp_all
  then show ?thesis
    unfolding eq by simp
next
  case False
  then show ?thesis
    using assms(2) by (auto simp: pass3_bwd_step_def)
qed

lemma keeps_defined_body:
  assumes "keeps_defined old lt"
  shows "keeps_defined old (fst (pass3_body lt))"
proof -
  let ?P = "\<lambda>s. keeps_defined old (fst s)"
  let ?s1 = "fold pass3_fwd_step [0..<length lt - 1] (lt, False)"
  have len: "length lt = length old"
    using assms by (simp add: keeps_defined_def)
  have fwd: "?P (pass3_fwd_step i s)" if "i \<in> set [0..<length lt - 1]" and "?P s" for i s
  proof -
    from that(1) have "Suc i < length old"
      unfolding len by auto
    then show ?thesis
      using that(2) by (rule keeps_defined_fwd)
  qed
  have "?P (lt, False)"
    using assms by simp
  then have s1: "?P ?s1"
    by (rule fold_invariant) (rule fwd)
  then have len1: "length (fst ?s1) = length old"
    by (simp add: keeps_defined_def)
  have bwd: "?P (pass3_bwd_step i s)" if "i \<in> set (rev [0..<length (fst ?s1) - 1])" and "?P s" for i s
  proof -
    from that(1) have "Suc i < length old"
      unfolding len1 by auto
    then show ?thesis
      using that(2) by (rule keeps_defined_bwd)
  qed
  from s1 have "?P (fold pass3_bwd_step (rev [0..<length (fst ?s1) - 1]) ?s1)"
    by (rule fold_invariant) (rule bwd)
  then show ?thesis
    unfolding pass3_body_def Let_def .
qed

lemma keeps_defined_pass3: "keeps_defined old lt \<Longrightarrow> keeps_defined old (pass3 lt)"
proof (induction lt rule: pass3.induct)
  case (1 lt)
  then show ?case
    using keeps_defined_body [of old lt] by (simp add: pass3_unfold [of lt])
qed

lemma changes_le_count:
  "length new = length old \<Longrightarrow> \<forall>i<length old. old ! i \<noteq> c \<longrightarrow> new ! i = old ! i
    \<Longrightarrow> length (filter (\<lambda>p. fst p \<noteq> snd p) (zip old new)) \<le> length (filter (\<lambda>x. x = c) old)"
proof (induction old new rule: list_induct2')
  case (4 x xs y ys)
  have len: "length ys = length xs"
    using 4(2) by simp
  have "xs ! i \<noteq> c \<longrightarrow> ys ! i = xs ! i" if "i < length xs" for i
    using 4(3) [rule_format, of "Suc i"] that by simp
  then have tl: "\<forall>i<length xs. xs ! i \<noteq> c \<longrightarrow> ys ! i = xs ! i"
    by blast
  have IH: "length (filter (\<lambda>p. fst p \<noteq> snd p) (zip xs ys)) \<le> length (filter (\<lambda>x. x = c) xs)"
    using len tl by (rule 4(1))
  have hd: "x \<noteq> c \<longrightarrow> y = x"
    using 4(3) [rule_format, of 0] by simp
  show ?case
  proof (cases "x = c")
    case True
    have "length (filter (\<lambda>p. fst p \<noteq> snd p) (zip (x # xs) (y # ys)))
        \<le> Suc (length (filter (\<lambda>p. fst p \<noteq> snd p) (zip xs ys)))"
      by simp
    moreover have "length (filter (\<lambda>x. x = c) (x # xs)) = Suc (length (filter (\<lambda>x. x = c) xs))"
      using True by simp
    ultimately show ?thesis
      using IH by linarith
  next
    case False
    with hd have "y = x" by simp
    then have "length (filter (\<lambda>p. fst p \<noteq> snd p) (zip (x # xs) (y # ys)))
        = length (filter (\<lambda>p. fst p \<noteq> snd p) (zip xs ys))"
      by simp
    moreover have "length (filter (\<lambda>x. x = c) (x # xs)) = length (filter (\<lambda>x. x = c) xs)"
      using False by simp
    ultimately show ?thesis
      using IH by linarith
  qed
qed simp_all

lemma label_changes_pass3: "label_changes lt (pass3 lt) \<le> undefined_count lt"
proof -
  have "keeps_defined lt (pass3 lt)"
    using keeps_defined_refl by (rule keeps_defined_pass3)
  then have "length (pass3 lt) = length lt"
    and "\<forall>i<length lt. lt ! i \<noteq> - 1 \<longrightarrow> pass3 lt ! i = lt ! i"
    by (simp_all add: keeps_defined_def)
  then show ?thesis
    unfolding label_changes_def undefined_count_def by (rule changes_le_count)
qed

lemma pass3_body_no_text:
  assumes "0 \<notin> set lt"
  shows "pass3_body lt = (lt, False)"
proof -
  have no: "lt ! i \<noteq> 0" if "i < length lt" for i
    using assms nth_mem [OF that] by auto
  have fwd: "pass3_fwd_step i (lt, False) = (lt, False)" if "i \<in> set [0..<length lt - 1]" for i
  proof -
    from that have "i < length lt" by auto
    then show ?thesis
      using no [of i] by (simp add: pass3_fwd_step_def)
  qed
  have bwd: "pass3_bwd_step i (lt, False) = (lt, False)" if "i \<in> set (rev [0..<length lt - 1])" for i
  proof -
    from that have "i + 1 < length lt" by auto
    then show ?thesis
      using no [of "i + 1"] by (simp add: pass3_bwd_step_def)
  qed
  have s1: "fold pass3_fwd_step [0..<length lt - 1] (lt, False) = (lt, False)"
    by (rule fold_invariant [where P = "\<lambda>s. s = (lt, False)"]) (simp_all add: fwd)
  have "fold pass3_bwd_step (rev [0..<length lt - 1]) (lt, False) = (lt, False)"
    by (rule fold_invariant [where P = "\<lambda>s. s = (lt, False)"]) (simp_all add: bwd)
  then show ?thesis
    unfolding pass3_body_def Let_def s1 by simp
qed

lemma pass3_fuel_all_blank: "pass3_fuel 1 (replicate n (- 1)) = Some (replicate n (- 1))"
proof -
  have "pass3_body (replicate n (- 1)) = (replicate n (- 1), False)"
    by (rule pass3_body_no_text) simp
  then have "pass3_fuel (Suc 0) (replicate n (- 1)) = Some (replicate n (- 1))"
    by (simp add: Let_def)
  then show ?thesis
    by simp
qed

text \<open>
  One run of the body leaves no TEXT label next to an undefined one: the forward scan
  leaves no \<open>0\<close> followed by \<open>-1\<close>, the backward scan no \<open>-1\<close> followed by \<open>0\<close> and brings
  no \<open>0\<close> followed by \<open>-1\<close> back. A second run of the body therefore changes nothing.
\<close>

definition no_text_undef :: "nat \<Rightarrow> int list \<Rightarrow> bool" where
  "no_text_undef k lt \<longleftrightarrow> (\<forall>j<k. Suc j < length lt \<longrightarrow> \<not> (lt ! j = 0 \<and> lt ! Suc j = - 1))"

definition no_undef_text :: "nat \<Rightarrow> int list \<Rightarrow> bool" where
  "no_undef_text k lt \<longleftrightarrow> (\<forall>j\<ge>k. Suc j < length lt \<longrightarrow> \<not> (lt ! j = - 1 \<and> lt ! Suc j = 0))"

definition settled :: "int list \<Rightarrow> bool" where
  "settled lt \<longleftrightarrow> no_text_undef (length lt) lt \<and> no_undef_text 0 lt"

lemma fwd_scan_settles:
  "k < length lt \<Longrightarrow>
     length (fst (fold pass3_fwd_step [0..<k] (lt, c))) = length lt
     \<and> no_text_undef k (fst (fold pass3_fwd_step [0..<k] (lt, c)))
     \<and> (\<forall>j>k. fst (fold pass3_fwd_step [0..<k] (lt, c)) ! j = lt ! j)"
proof (induction k)
  case 0
  then show ?case by (simp add: no_text_undef_def)
next
  case (Suc k)
  let ?s = "fold pass3_fwd_step [0..<k] (lt, c)"
  let ?r = "fst ?s"
  from Suc have len: "length ?r = length lt" and seen: "no_text_undef k ?r"
    and rest: "\<forall>j>k. ?r ! j = lt ! j"
    by simp_all
  have last_step: "fold pass3_fwd_step [0..<Suc k] (lt, c) = pass3_fwd_step k ?s"
    by simp
  show ?case
  proof (cases "?r ! k = 0 \<and> ?r ! (k + 1) = - 1")
    case True
    then have step: "fst (pass3_fwd_step k ?s) = ?r[k + 1 := 0]"
      by (simp add: pass3_fwd_step_def)
    have "no_text_undef (Suc k) (?r[k + 1 := 0])"
      unfolding no_text_undef_def
    proof (intro allI impI)
      fix j
      assume j: "j < Suc k" and "Suc j < length (?r[k + 1 := 0])"
      then have sj: "Suc j < length ?r" by simp
      show "\<not> (?r[k + 1 := 0] ! j = 0 \<and> ?r[k + 1 := 0] ! Suc j = - 1)"
      proof (cases "j = k")
        case True
        then show ?thesis using sj by simp
      next
        case False
        with j have "j < k" by simp
        then have "?r[k + 1 := 0] ! j = ?r ! j" and "?r[k + 1 := 0] ! Suc j = ?r ! Suc j"
          by simp_all
        then show ?thesis
          using seen \<open>j < k\<close> sj by (simp add: no_text_undef_def)
      qed
    qed
    moreover have "\<forall>j>Suc k. ?r[k + 1 := 0] ! j = lt ! j"
      using rest by simp
    ultimately show ?thesis
      unfolding last_step step using len by simp
  next
    case False
    then have step: "pass3_fwd_step k ?s = ?s"
      by (auto simp: pass3_fwd_step_def)
    have "no_text_undef (Suc k) ?r"
      unfolding no_text_undef_def
    proof (intro allI impI)
      fix j
      assume j: "j < Suc k" and sj: "Suc j < length ?r"
      show "\<not> (?r ! j = 0 \<and> ?r ! Suc j = - 1)"
      proof (cases "j = k")
        case True
        then show ?thesis using False by simp
      next
        case False
        with j have "j < k" by simp
        then show ?thesis
          using seen sj by (simp add: no_text_undef_def)
      qed
    qed
    then show ?thesis
      unfolding last_step step using len rest by simp
  qed
qed

lemma bwd_step_keeps:
  assumes "Suc k < length (fst s)"
    and "no_text_undef (length (fst s)) (fst s)"
    and "no_undef_text (Suc k) (fst s)"
  shows "length (fst (pass3_bwd_step k s)) = length (fst s)
     \<and> no_text_undef (length (fst s)) (fst (pass3_bwd_step k s))
     \<and> no_undef_text k (fst (pass3_bwd_step k s))"
proof (cases "fst s ! k = - 1 \<and> fst s ! (k + 1) = 0")
  case True
  let ?t = "fst s" and ?t' = "(fst s)[k := 0]"
  from True have step: "fst (pass3_bwd_step k s) = ?t'"
    by (simp add: pass3_bwd_step_def)
  have a: "no_text_undef (length ?t) ?t'"
    unfolding no_text_undef_def
  proof (intro allI impI)
    fix j
    assume "j < length ?t" and sj: "Suc j < length ?t'"
    show "\<not> (?t' ! j = 0 \<and> ?t' ! Suc j = - 1)"
    proof (cases "Suc j = k")
      case True
      then show ?thesis using sj by simp
    next
      case False
      note not_before = this
      show ?thesis
      proof (cases "j = k")
        case True
        then show ?thesis using \<open>fst s ! k = - 1 \<and> fst s ! (k + 1) = 0\<close> sj by simp
      next
        case False
        then have "?t' ! j = ?t ! j" and "?t' ! Suc j = ?t ! Suc j"
          using not_before by simp_all
        then show ?thesis
          using assms(2) sj by (simp add: no_text_undef_def)
      qed
    qed
  qed
  have b: "no_undef_text k ?t'"
    unfolding no_undef_text_def
  proof (intro allI impI)
    fix j
    assume j: "k \<le> j" and sj: "Suc j < length ?t'"
    show "\<not> (?t' ! j = - 1 \<and> ?t' ! Suc j = 0)"
    proof (cases "j = k")
      case True
      then show ?thesis using sj by simp
    next
      case False
      with j have "Suc k \<le> j" by simp
      then have "?t' ! j = ?t ! j" and "?t' ! Suc j = ?t ! Suc j"
        by simp_all
      then show ?thesis
        using assms(3) \<open>Suc k \<le> j\<close> sj by (simp add: no_undef_text_def)
    qed
  qed
  show ?thesis
    unfolding step using a b by simp
next
  case False
  then have step: "pass3_bwd_step k s = s"
    by (auto simp: pass3_bwd_step_def)
  have "no_undef_text k (fst s)"
    unfolding no_undef_text_def
  proof (intro allI impI)
    fix j
    assume j: "k \<le> j" and sj: "Suc j < length (fst s)"
    show "\<not> (fst s ! j = - 1 \<and> fst s ! Suc j = 0)"
    proof (cases "j = k")
      case True
      then show ?thesis using False by simp
    next
      case False
      with j have "Suc k \<le> j" by simp
      then show ?thesis
        using assms(3) sj by (simp add: no_undef_text_def)
    qed
  qed
  then show ?thesis
    unfolding step using assms(2) by simp
qed

lemma bwd_scan_settles:
  "k < length (fst s) \<Longrightarrow> no_text_undef (length (fst s)) (fst s) \<Longrightarrow> no_undef_text k (fst s)
    \<Longrightarrow> length (fst (fold pass3_bwd_step (rev [0..<k]) s)) = length (fst s)
       \<and> settled (fst (fold pass3_bwd_step (rev [0..<k]) s))"
proof (induction k arbitrary: s)
  case 0
  then show ?case by (simp add: settled_def)
next
  case (Suc k)
  let ?s' = "pass3_bwd_step k s"
  have keeps: "length (fst ?s') = length (fst s)"
    "no_text_undef (length (fst s)) (fst ?s')" "no_undef_text k (fst ?s')"
    using bwd_step_keeps [OF Suc.prems] by simp_all
  have "length (fst (fold pass3_bwd_step (rev [0..<k]) ?s')) = length (fst ?s')
      \<and> settled (fst (fold pass3_bwd_step (rev [0..<k]) ?s'))"
    using Suc.prems(1) keeps by (intro Suc.IH) simp_all
  then show ?case
    using keeps(1) by simp
qed

lemma settled_body:
  assumes "settled lt"
  shows "pass3_body lt = (lt, False)"
proof -
  have fwd: "pass3_fwd_step i (lt, False) = (lt, False)" if "i \<in> set [0..<length lt - 1]" for i
  proof -
    from that have "i < length lt" and "Suc i < length lt" by auto
    then have "\<not> (lt ! i = 0 \<and> lt ! Suc i = - 1)"
      using assms by (simp add: settled_def no_text_undef_def)
    then show ?thesis
      by (auto simp: pass3_fwd_step_def)
  qed
  have bwd: "pass3_bwd_step i (lt, False) = (lt, False)" if "i \<in> set (rev [0..<length lt - 1])" for i
  proof -
    from that have "Suc i < length lt" by auto
    then have "\<not> (lt ! i = - 1 \<and> lt ! Suc i = 0)"
      using assms by (simp add: settled_def no_undef_text_def)
    then show ?thesis
      by (auto simp: pass3_bwd_step_def)
  qed
  have s1: "fold pass3_fwd_step [0..<length lt - 1] (lt, False) = (lt, False)"
    by (rule fold_invariant [where P = "\<lambda>s. s = (lt, False)"]) (simp_all add: fwd)
  have "fold pass3_bwd_step (rev [0..<length lt - 1]) (lt, False) = (lt, False)"
    by (rule fold_invariant [where P = "\<lambda>s. s = (lt, False)"]) (simp_all add: bwd)
  then show ?thesis
    unfolding pass3_body_def Let_def s1 by simp
qed

lemma body_settles: "settled (fst (pass3_body lt))"
proof (cases "lt = []")
  case True
  then show ?thesis
    by (simp add: pass3_body_def settled_def no_text_undef_def no_undef_text_def)
next
  case False
  let ?k = "length lt - 1"
  let ?s1 = "fold pass3_fwd_step [0..<?k] (lt, False)"
  have k: "?k < length lt"
    using False by simp
  from fwd_scan_settles [OF k, of False]
  have len: "length (fst ?s1) = length lt" and none: "no_text_undef ?k (fst ?s1)"
    by simp_all
  have all: "no_text_undef (length (fst ?s1)) (fst ?s1)"
    using none unfolding no_text_undef_def len by auto
  have start: "no_undef_text ?k (fst ?s1)"
    unfolding no_undef_text_def len by auto
  have "?k < length (fst ?s1)"
    using k len by simp
  then have "settled (fst (fold pass3_bwd_step (rev [0..<?k]) ?s1))"
    using all start bwd_scan_settles [of ?k ?s1] by blast
  then show ?thesis
    unfolding pass3_body_def Let_def len .
qed

lemma pass3_two_runs: "pass3_fuel 2 lt = Some (pass3 lt)"
proof -
  let ?s = "pass3_body lt"
  have second: "pass3_body (fst ?s) = (fst ?s, False)"
    using body_settles by (rule settled_body)
  have two: "pass3_fuel 2 lt = pass3_fuel (Suc (Suc 0)) lt"
    by (simp add: numeral_2_eq_2)
  show ?thesis
  proof (cases "snd ?s")
    case True
    then have "pass3 lt = pass3 (fst ?s)"
      by (simp add: pass3_unfold [of lt])
    also have "\<dots> = fst ?s"
      using second by (simp add: pass3_unfold [of "fst ?s"])
    finally show ?thesis
      unfolding two using True second by (simp add: Let_def)
  next
    case False
    then show ?thesis
      unfolding two by (simp add: Let_def pass3_unfold [of lt])
  qed
qed

lemma pass3_one_run: "length lt \<le> 1 \<Longrightarrow> pass3_fuel 1 lt = Some (pass3 lt)"
proof -
  assume "length lt \<le> 1"
  then have "pass3_body lt = (lt, False)"
    by (simp add: pass3_body_def)
  then have "pass3_fuel (Suc 0) lt = Some (pass3 lt)"
    by (simp add: Let_def pass3_unfold [of lt])
  then show ?thesis
    by simp
qed

lemma pass3_fuel_mono: "pass3_fuel k lt = Some r \<Longrightarrow> k \<le> k' \<Longrightarrow> pass3_fuel k' lt = Some r"
proof (induction k arbitrary: lt k')
  case 0
  then show ?case by simp
next
  case (Suc k)
  from Suc.prems(2) obtain m where k': "k' = Suc m" and m: "k \<le> m"
    by (cases k') simp_all
  show ?case
  proof (cases "snd (pass3_body lt)")
    case True
    with Suc.prems(1) have "pass3_fuel k (fst (pass3_body lt)) = Some r"
      by (simp add: Let_def)
    then have "pass3_fuel m (fst (pass3_body lt)) = Some r"
      using m by (rule Suc.IH)
    then show ?thesis
      unfolding k' using True by (simp add: Let_def)
  next
    case False
    with Suc.prems(1) show ?thesis
      unfolding k' by (simp add: Let_def)
  qed
qed

lemma pass3_runs_le_length: "pass3_fuel (max 1 (length lt)) lt = Some (pass3 lt)"
proof (cases "length lt \<le> 1")
  case True
  then have "max 1 (length lt) = 1"
    by simp
  then show ?thesis
    using pass3_one_run [OF True] by simp
next
  case False
  then have "2 \<le> max 1 (length lt)"
    by simp
  with pass3_two_runs show ?thesis
    by (rule pass3_fuel_mono)
qed

text \<open>
  C6. The loop of pass 3 ends on every list of labels. One more run of the body than
  there are undefined labels is enough; two runs are always enough, and one run when the
  document has at most one line, so the number of runs is at most the length of the
  document, except that the body runs once on the empty document (the test of the loop
  comes after the body). The number of labels pass 3 changes is at most the number of
  undefined labels, hence at most the length of the document. On an all-blank document of
  any length, where every label is undefined, the loop ends after its first run and
  changes nothing.
\<close>

theorem pass3_terminates_within_bound:
  "pass3_fuel (Suc (undefined_count lt)) lt = Some (pass3 lt)
   \<and> pass3_fuel 2 lt = Some (pass3 lt)
   \<and> pass3_fuel (max 1 (length lt)) lt = Some (pass3 lt)
   \<and> undefined_count lt \<le> length lt
   \<and> label_changes lt (pass3 lt) \<le> undefined_count lt
   \<and> pass3_fuel 1 (replicate n (- 1)) = Some (replicate n (- 1))"
proof (intro conjI)
  show "pass3_fuel (Suc (undefined_count lt)) lt = Some (pass3 lt)"
    by (rule pass3_fuel_enough) (rule order_refl)
  show "pass3_fuel 2 lt = Some (pass3 lt)"
    by (rule pass3_two_runs)
  show "pass3_fuel (max 1 (length lt)) lt = Some (pass3 lt)"
    by (rule pass3_runs_le_length)
  show "undefined_count lt \<le> length lt"
    by (rule undefined_count_le_length)
  show "label_changes lt (pass3 lt) \<le> undefined_count lt"
    by (rule label_changes_pass3)
  show "pass3_fuel 1 (replicate n (- 1)) = Some (replicate n (- 1))"
    by (rule pass3_fuel_all_blank)
qed

section \<open>The classifier on a blank line next to code\<close>

text \<open>
  Pass 2 only marks: it turns \<open>-1\<close> into \<open>-2\<close> and changes nothing else. Its forward scan
  marks every undefined label that follows a code label, its backward scan every undefined
  label that a code label follows.
\<close>

definition marked :: "int list \<Rightarrow> int list \<Rightarrow> bool" where
  "marked old new \<longleftrightarrow>
     length new = length old \<and> (\<forall>j<length old. new ! j = old ! j \<or> old ! j = - 1 \<and> new ! j = - 2)"

lemma marked_refl: "marked lt lt"
  by (simp add: marked_def)

lemma marked_update:
  "marked old new \<Longrightarrow> j < length old \<Longrightarrow> old ! j = - 1 \<Longrightarrow> marked old (new[j := - 2])"
  by (auto simp: marked_def nth_list_update)

lemma marked_keeps: "marked old new \<Longrightarrow> j < length old \<Longrightarrow> old ! j \<noteq> - 1 \<Longrightarrow> new ! j = old ! j"
  by (auto simp: marked_def)

lemma pass2_fwd_scan:
  "k < length lt \<Longrightarrow>
     marked lt (fold pass2_fwd_step [0..<k] lt)
     \<and> (\<forall>j>k. fold pass2_fwd_step [0..<k] lt ! j = lt ! j)
     \<and> (\<forall>j<k. lt ! j = 1 \<and> lt ! Suc j = - 1 \<longrightarrow> fold pass2_fwd_step [0..<k] lt ! Suc j = - 2)"
proof (induction k)
  case 0
  then show ?case by (simp add: marked_refl)
next
  case (Suc k)
  let ?r = "fold pass2_fwd_step [0..<k] lt"
  from Suc have m: "marked lt ?r" and rest: "\<forall>j>k. ?r ! j = lt ! j"
    and seen: "\<forall>j<k. lt ! j = 1 \<and> lt ! Suc j = - 1 \<longrightarrow> ?r ! Suc j = - 2"
    by simp_all
  have len: "length ?r = length lt"
    using m by (simp add: marked_def)
  have last_step: "fold pass2_fwd_step [0..<Suc k] lt = pass2_fwd_step k ?r"
    by simp
  have next_same: "?r ! Suc k = lt ! Suc k"
    using rest by simp
  show ?case
  proof (cases "?r ! k = 1 \<and> ?r ! (k + 1) = - 1")
    case True
    then have step: "pass2_fwd_step k ?r = ?r[k + 1 := - 2]"
      by (simp add: pass2_fwd_step_def)
    have "lt ! Suc k = - 1"
      using True next_same by simp
    then have "marked lt (?r[k + 1 := - 2])"
      using m Suc.prems by (intro marked_update) simp_all
    moreover have "\<forall>j>Suc k. ?r[k + 1 := - 2] ! j = lt ! j"
      using rest by simp
    moreover have "\<forall>j<Suc k. lt ! j = 1 \<and> lt ! Suc j = - 1 \<longrightarrow> ?r[k + 1 := - 2] ! Suc j = - 2"
    proof (intro allI impI)
      fix j
      assume j: "j < Suc k" and "lt ! j = 1 \<and> lt ! Suc j = - 1"
      show "?r[k + 1 := - 2] ! Suc j = - 2"
      proof (cases "j = k")
        case True
        then show ?thesis using Suc.prems len by simp
      next
        case False
        with j have "j < k" by simp
        then show ?thesis
          using seen \<open>lt ! j = 1 \<and> lt ! Suc j = - 1\<close> by simp
      qed
    qed
    ultimately show ?thesis
      unfolding last_step step by simp
  next
    case False
    then have step: "pass2_fwd_step k ?r = ?r"
      by (auto simp: pass2_fwd_step_def)
    have "\<forall>j<Suc k. lt ! j = 1 \<and> lt ! Suc j = - 1 \<longrightarrow> ?r ! Suc j = - 2"
    proof (intro allI impI)
      fix j
      assume j: "j < Suc k" and code: "lt ! j = 1 \<and> lt ! Suc j = - 1"
      show "?r ! Suc j = - 2"
      proof (cases "j = k")
        case True
        then have "?r ! k = 1"
          using code m Suc.prems marked_keeps [of lt ?r k] by simp
        then show ?thesis
          using False True code next_same by simp
      next
        case False
        with j have "j < k" by simp
        then show ?thesis
          using seen code by simp
      qed
    qed
    then show ?thesis
      unfolding last_step step using m rest by simp
  qed
qed

lemma pass2_bwd_scan:
  "k < length s \<Longrightarrow>
     marked s (fold pass2_bwd_step (rev [0..<k]) s)
     \<and> (\<forall>j\<ge>k. fold pass2_bwd_step (rev [0..<k]) s ! j = s ! j)
     \<and> (\<forall>j<k. s ! j = - 1 \<and> s ! Suc j = 1 \<longrightarrow> fold pass2_bwd_step (rev [0..<k]) s ! j = - 2)"
proof (induction k arbitrary: s)
  case 0
  then show ?case by (simp add: marked_refl)
next
  case (Suc k)
  let ?s' = "pass2_bwd_step k s"
  let ?b = "fold pass2_bwd_step (rev [0..<k]) ?s'"
  have first_step: "fold pass2_bwd_step (rev [0..<Suc k]) s = ?b"
    by simp
  have s': "marked s ?s'" "\<forall>j. j \<noteq> k \<longrightarrow> ?s' ! j = s ! j"
    "s ! k = - 1 \<and> s ! Suc k = 1 \<longrightarrow> ?s' ! k = - 2"
    using Suc.prems by (auto simp: pass2_bwd_step_def marked_def nth_list_update)
  then have len: "length ?s' = length s"
    by (simp add: marked_def)
  then have "k < length ?s'"
    using Suc.prems by simp
  from Suc.IH [OF this]
  have m: "marked ?s' ?b" and rest: "\<forall>j\<ge>k. ?b ! j = ?s' ! j"
    and seen: "\<forall>j<k. ?s' ! j = - 1 \<and> ?s' ! Suc j = 1 \<longrightarrow> ?b ! j = - 2"
    by simp_all
  have "marked s ?b"
    unfolding marked_def
  proof (intro conjI allI impI)
    show "length ?b = length s"
      using m len by (simp add: marked_def)
    fix j
    assume "j < length s"
    then have "?s' ! j = s ! j \<or> s ! j = - 1 \<and> ?s' ! j = - 2"
      and "?b ! j = ?s' ! j \<or> ?s' ! j = - 1 \<and> ?b ! j = - 2"
      using s'(1) m len by (simp_all add: marked_def)
    then show "?b ! j = s ! j \<or> s ! j = - 1 \<and> ?b ! j = - 2"
      by auto
  qed
  moreover have "\<forall>j\<ge>Suc k. ?b ! j = s ! j"
    using rest s'(2) by simp
  moreover have "\<forall>j<Suc k. s ! j = - 1 \<and> s ! Suc j = 1 \<longrightarrow> ?b ! j = - 2"
  proof (intro allI impI)
    fix j
    assume j: "j < Suc k" and code: "s ! j = - 1 \<and> s ! Suc j = 1"
    show "?b ! j = - 2"
    proof (cases "j = k")
      case True
      then show ?thesis
        using code s'(3) rest by simp
    next
      case False
      with j have jk: "j < k" by simp
      have "?s' ! j = - 1"
        using code s'(2) jk by simp
      moreover have "?s' ! Suc j = 1"
      proof (cases "Suc j = k")
        case True
        then have "s ! k \<noteq> - 1"
          using code by simp
        then have "?s' = s"
          by (simp add: pass2_bwd_step_def)
        then show ?thesis
          using code by simp
      next
        case False
        then show ?thesis
          using code s'(2) by simp
      qed
      ultimately show ?thesis
        using seen jk by simp
    qed
  qed
  ultimately show ?case
    unfolding first_step by simp
qed

lemma marked_cases:
  "marked old new \<Longrightarrow> j < length old \<Longrightarrow> new ! j = old ! j \<or> old ! j = - 1 \<and> new ! j = - 2"
  by (simp add: marked_def)

lemma pass2_absorbs:
  assumes "Suc i < length lt"
  shows "(lt ! i = - 1 \<and> lt ! Suc i = 1 \<longrightarrow> pass2 lt ! i = 1)
       \<and> (lt ! i = 1 \<and> lt ! Suc i = - 1 \<longrightarrow> pass2 lt ! Suc i = 1)"
proof -
  let ?k = "length lt - 1"
  let ?f = "fold pass2_fwd_step [0..<?k] lt"
  let ?b = "fold pass2_bwd_step (rev [0..<length ?f - 1]) ?f"
  have k: "?k < length lt" and ik: "i < ?k"
    using assms by simp_all
  from pass2_fwd_scan [OF k]
  have mf: "marked lt ?f"
    and fwd: "\<forall>j<?k. lt ! j = 1 \<and> lt ! Suc j = - 1 \<longrightarrow> ?f ! Suc j = - 2"
    by simp_all
  have lenf: "length ?f = length lt"
    using mf by (simp add: marked_def)
  then have "length ?f - 1 < length ?f"
    using k by simp
  from pass2_bwd_scan [OF this]
  have mb: "marked ?f ?b"
    and bwd: "\<forall>j<length ?f - 1. ?f ! j = - 1 \<and> ?f ! Suc j = 1 \<longrightarrow> ?b ! j = - 2"
    by simp_all
  have lenb: "length ?b = length lt"
    using mb lenf by (simp add: marked_def)
  have result: "pass2 lt ! j = (if ?b ! j = - 2 then 1 else ?b ! j)" if "j < length lt" for j
    unfolding pass2_def Let_def using that lenb by simp
  have before: "pass2 lt ! i = 1" if code: "lt ! i = - 1 \<and> lt ! Suc i = 1"
  proof -
    have next_code: "?f ! Suc i = 1"
      using code assms marked_keeps [OF mf, of "Suc i"] by simp
    have "i < length lt"
      using assms by simp
    with mf have "?f ! i = lt ! i \<or> lt ! i = - 1 \<and> ?f ! i = - 2"
      by (rule marked_cases)
    with code have "?f ! i = - 1 \<or> ?f ! i = - 2"
      by auto
    then have "?b ! i = - 2"
    proof
      assume "?f ! i = - 1"
      then show ?thesis
        using bwd next_code ik lenf by simp
    next
      assume "?f ! i = - 2"
      then show ?thesis
        using marked_keeps [OF mb, of i] assms lenf by simp
    qed
    then show ?thesis
      using result [of i] assms by simp
  qed
  have after: "pass2 lt ! Suc i = 1" if code: "lt ! i = 1 \<and> lt ! Suc i = - 1"
  proof -
    have "?f ! Suc i = - 2"
      using fwd code ik by simp
    then have "?b ! Suc i = - 2"
      using marked_keeps [OF mb, of "Suc i"] assms lenf by simp
    then show ?thesis
      using result [of "Suc i"] assms by simp
  qed
  show ?thesis
    using before after by blast
qed

lemma classify_lines_keeps_code:
  assumes "j < length lines" and "pass2 (map line_type lines) ! j = 1"
  shows "classify_lines lines ! j = 1"
proof -
  let ?p = "pass2 (map line_type lines)"
  have "set (map line_type lines) \<subseteq> {- 1, 0, 1}"
    using line_type_range by auto
  then have len: "length ?p = length lines"
    using pass2_labels [of "map line_type lines"] by simp
  have kept: "keeps_defined ?p (pass3 ?p)"
    using keeps_defined_refl by (rule keeps_defined_pass3)
  then have "pass3 ?p ! j = 1"
    using assms len by (simp add: keeps_defined_def)
  moreover have "j < length (pass3 ?p)"
    using kept assms(1) len by (simp add: keeps_defined_def)
  ultimately show ?thesis
    unfolding classify_lines_def Let_def by simp
qed

text \<open>
  C4. On \<open>["intro text", "", "    code"]\<close> the classifier labels line 0 TEXT and the blank
  line 1 CODE. The first labels are \<open>[0, -1, 1]\<close>; pass 2 (repair pass A), which runs
  first, turns the blank line into code, and pass 3 (repair pass B) then finds nothing
  undefined. Pass 3 alone on the first labels would have made the blank line TEXT. In
  general, in any list of lines, a blank line directly before or directly after a line
  whose first label is CODE is labelled CODE, whatever stands on its other side.
\<close>

theorem blank_between_text_and_code:
  "classify_lines [''intro text'', '''', ''    code''] = [0, 1, 1]
   \<and> map line_type [''intro text'', '''', ''    code''] = [0, - 1, 1]
   \<and> pass2 [0, - 1, 1] = [0, 1, 1]
   \<and> pass3 (pass2 [0, - 1, 1]) = [0, 1, 1]
   \<and> pass3 [0, - 1, 1] = [0, 0, 1]
   \<and> (Suc i < length lines \<and> line_type (lines ! i) = - 1 \<and> line_type (lines ! Suc i) = 1
        \<longrightarrow> classify_lines lines ! i = 1)
   \<and> (Suc i < length lines \<and> line_type (lines ! i) = 1 \<and> line_type (lines ! Suc i) = - 1
        \<longrightarrow> classify_lines lines ! Suc i = 1)"
proof -
  have example: "classify_lines [''intro text'', '''', ''    code''] = [0, 1, 1]
      \<and> map line_type [''intro text'', '''', ''    code''] = [0, - 1, 1]
      \<and> pass2 [0, - 1, 1] = [0, 1, 1]
      \<and> pass3 (pass2 [0, - 1, 1]) = [0, 1, 1]
      \<and> pass3 [0, - 1, 1] = [0, 0, 1]"
    by code_simp
  have before: "classify_lines lines ! i = 1"
    if "Suc i < length lines \<and> line_type (lines ! i) = - 1 \<and> line_type (lines ! Suc i) = 1"
  proof -
    from that have "pass2 (map line_type lines) ! i = 1"
      using pass2_absorbs [of i "map line_type lines"] by simp
    then show ?thesis
      using that by (intro classify_lines_keeps_code) simp_all
  qed
  have after: "classify_lines lines ! Suc i = 1"
    if "Suc i < length lines \<and> line_type (lines ! i) = 1 \<and> line_type (lines ! Suc i) = - 1"
  proof -
    from that have "pass2 (map line_type lines) ! Suc i = 1"
      using pass2_absorbs [of i "map line_type lines"] by simp
    then show ?thesis
      using that by (intro classify_lines_keeps_code) simp_all
  qed
  show ?thesis
    using example before after by blast
qed

theorem blank_between_text_and_code_witness:
  "Suc 1 < length [''intro text'', '''', ''    code'']
   \<and> line_type ([''intro text'', '''', ''    code''] ! 1) = - 1
   \<and> line_type ([''intro text'', '''', ''    code''] ! Suc 1) = 1
   \<and> classify_lines [''intro text'', '''', ''    code''] ! 1 = 1
   \<and> Suc 0 < length [''    code'', '''', ''text'']
   \<and> line_type ([''    code'', '''', ''text''] ! 0) = 1
   \<and> line_type ([''    code'', '''', ''text''] ! Suc 0) = - 1
   \<and> classify_lines [''    code'', '''', ''text''] ! Suc 0 = 1"
proof -
  have a: "Suc 1 < length [''intro text'', '''', ''    code'']
      \<and> line_type ([''intro text'', '''', ''    code''] ! 1) = - 1
      \<and> line_type ([''intro text'', '''', ''    code''] ! Suc 1) = 1"
    by code_simp
  have b: "Suc 0 < length [''    code'', '''', ''text'']
      \<and> line_type ([''    code'', '''', ''text''] ! 0) = 1
      \<and> line_type ([''    code'', '''', ''text''] ! Suc 0) = - 1"
    by code_simp
  have "classify_lines [''intro text'', '''', ''    code''] ! 1 = 1"
    using blank_between_text_and_code [of 1 "[''intro text'', '''', ''    code'']"] a by blast
  moreover have "classify_lines [''    code'', '''', ''text''] ! Suc 0 = 1"
    using blank_between_text_and_code [of 0 "[''    code'', '''', ''text'']"] b by blast
  ultimately show ?thesis
    using a b by blast
qed

section \<open>Both flags set\<close>

lemma wrap_line_ignores_vim: "wrap_line (env\<lparr>vim := v\<rparr>) u = wrap_line env u"
  by (rule ext) (simp add: wrap_line_def)

lemma lines_classes_ignore_vim:
  "beautify_lines_classes (env\<lparr>vim := v\<rparr>) text u = beautify_lines_classes env text u"
  by (simp add: beautify_lines_classes_def wrap_lines_def wrap_line_ignores_vim)

text \<open>
  C8, as the code has it. \<open>_beautify\<close> tests \<open>remove_text\<close> first, so with both flags set
  it removes the text: the result is the one of \<open>remove_text\<close> alone, and it does not depend
  on the vim collaborator, which is never run.
\<close>

theorem both_flags_remove_text:
  "beautify' env text filetype True True = beautify' env text filetype False True
   \<and> beautify' (env\<lparr>vim := v\<rparr>) text filetype True True = beautify' env text filetype True True"
  by (simp add: beautify'_def lines_classes_ignore_vim)

text \<open>
  On the small document, with both flags set the output is the code alone, while
  \<open>add_comments\<close> alone returns what vim wrote.
\<close>

theorem both_flags_not_comment_insertion:
  "beautify' plain_env explanation_text ''python'' True True = '' x = 1\<newline> y = 2\<newline>''
   \<and> beautify' plain_env explanation_text ''python'' True False = ''<vim output>''
   \<and> beautify' plain_env explanation_text ''python'' True True
       \<noteq> beautify' plain_env explanation_text ''python'' True False"
  by code_simp

section \<open>Errors of the Redis client\<close>

lemma beauty_options_of_remove_text:
  "beauty_options_of (Some [''remove_text'' \<mapsto> True]) = [''remove_text'' \<mapsto> True]"
  by (auto simp: beauty_options_of_def restrict_map_def fun_eq_iff)

lemma flags_remove_text:
  "flag [''remove_text'' \<mapsto> True] ''add_comments'' = False"
  "flag [''remove_text'' \<mapsto> True] ''remove_text'' = True"
  by (simp_all add: flag_def)

lemma plain_remove_text:
  "beautify' plain_env explanation_text ''python'' False True = '' x = 1\<newline> y = 2\<newline>''"
  by code_simp

text \<open>
  With a Redis client that raises on the lookup, or on the store after a lookup that found
  nothing, \<open>beautify\<close> ends with the error and returns no text.
\<close>

theorem redis_error_aborts_beautify:
  "beautify down_env () explanation_text ''python'' (Some [''remove_text'' \<mapsto> True])
     = Inl (RedisError ''Connection refused'')
   \<and> beautify readonly_env () explanation_text ''python'' (Some [''remove_text'' \<mapsto> True])
     = Inl (RedisError ''READONLY'')"
  by (simp add: beautify_def beautify_miss_def beauty_options_of_remove_text Let_def
      down_env_def readonly_env_def plain_env_def)

lemma redis_outcome_cases:
  fixes g :: "error + string option" and s :: "error + 'r" and r :: 'r
  assumes "m = (case s of Inl e \<Rightarrow> Inl e | Inr r' \<Rightarrow> Inr (T, r'))"
    and "b = (case g of
                Inl e \<Rightarrow> Inl e
              | Inr None \<Rightarrow> m
              | Inr (Some answer) \<Rightarrow> (if answer \<noteq> '''' then Inr (answer, r) else m))"
  shows "(g = Inl e \<longrightarrow> b = Inl e)
       \<and> (g = Inr (Some a) \<and> a \<noteq> '''' \<longrightarrow> b = Inr (a, r))
       \<and> ((g = Inr None \<or> g = Inr (Some '''')) \<and> s = Inl e \<longrightarrow> b = Inl e)
       \<and> ((g = Inr None \<or> g = Inr (Some '''')) \<and> s = Inr r' \<longrightarrow> b = Inr (T, r'))
       \<and> (b = Inr (t, r')
            \<longrightarrow> g = Inr (Some t) \<and> t \<noteq> '''' \<and> r' = r
              \<or> (g = Inr None \<or> g = Inr (Some '''')) \<and> s = Inr r' \<and> t = T)
       \<and> (b = Inl e
            \<longrightarrow> g = Inl e \<or> (g = Inr None \<or> g = Inr (Some '''')) \<and> s = Inl e)"
  unfolding assms by (cases g; cases s) (auto split: option.splits)

text \<open>
  C9, as the code has it. \<open>beautify\<close> has no handler around its two Redis calls. When the
  options hold one of the two known keys, its result is one of four. An error of the
  lookup is the result of \<open>beautify\<close>. A lookup that finds a string that is not empty gives
  that string, and the Redis state is left as it was. After a lookup that finds nothing
  or the empty string (\<open>if answer\<close> is false for both), an error of the store is the
  result of \<open>beautify\<close>, although \<open>_beautify\<close> has already computed the text, and a store
  that succeeds gives the text of \<open>_beautify\<close>. The last two conjuncts say that there is no
  other way to a text or to an error.
\<close>

theorem beautify_redis_outcomes:
  assumes "beauty_options_of options \<noteq> Map.empty"
  shows "(redis_get env r (digest_of env text lang (beauty_options_of options)) = Inl e
            \<longrightarrow> beautify env r text lang options = Inl e)
       \<and> (redis_get env r (digest_of env text lang (beauty_options_of options)) = Inr (Some a)
          \<and> a \<noteq> ''''
            \<longrightarrow> beautify env r text lang options = Inr (a, r))
       \<and> ((redis_get env r (digest_of env text lang (beauty_options_of options)) = Inr None
           \<or> redis_get env r (digest_of env text lang (beauty_options_of options)) = Inr (Some ''''))
          \<and> redis_set env r (digest_of env text lang (beauty_options_of options))
               (beautify' env text lang (flag (beauty_options_of options) ''add_comments'')
                  (flag (beauty_options_of options) ''remove_text'')) = Inl e
            \<longrightarrow> beautify env r text lang options = Inl e)
       \<and> ((redis_get env r (digest_of env text lang (beauty_options_of options)) = Inr None
           \<or> redis_get env r (digest_of env text lang (beauty_options_of options)) = Inr (Some ''''))
          \<and> redis_set env r (digest_of env text lang (beauty_options_of options))
               (beautify' env text lang (flag (beauty_options_of options) ''add_comments'')
                  (flag (beauty_options_of options) ''remove_text'')) = Inr r'
            \<longrightarrow> beautify env r text lang options
                = Inr (beautify' env text lang (flag (beauty_options_of options) ''add_comments'')
                         (flag (beauty_options_of options) ''remove_text''), r'))
       \<and> (beautify env r text lang options = Inr (t, r')
            \<longrightarrow> redis_get env r (digest_of env text lang (beauty_options_of options)) = Inr (Some t)
                \<and> t \<noteq> '''' \<and> r' = r
              \<or> (redis_get env r (digest_of env text lang (beauty_options_of options)) = Inr None
                 \<or> redis_get env r (digest_of env text lang (beauty_options_of options))
                     = Inr (Some ''''))
                \<and> redis_set env r (digest_of env text lang (beauty_options_of options))
                     (beautify' env text lang (flag (beauty_options_of options) ''add_comments'')
                        (flag (beauty_options_of options) ''remove_text'')) = Inr r'
                \<and> t = beautify' env text lang (flag (beauty_options_of options) ''add_comments'')
                         (flag (beauty_options_of options) ''remove_text''))
       \<and> (beautify env r text lang options = Inl e
            \<longrightarrow> redis_get env r (digest_of env text lang (beauty_options_of options)) = Inl e
              \<or> (redis_get env r (digest_of env text lang (beauty_options_of options)) = Inr None
                 \<or> redis_get env r (digest_of env text lang (beauty_options_of options))
                     = Inr (Some ''''))
                \<and> redis_set env r (digest_of env text lang (beauty_options_of options))
                     (beautify' env text lang (flag (beauty_options_of options) ''add_comments'')
                        (flag (beauty_options_of options) ''remove_text'')) = Inl e)"
proof -
  let ?d = "digest_of env text lang (beauty_options_of options)"
  let ?t = "beautify' env text lang (flag (beauty_options_of options) ''add_comments'')
      (flag (beauty_options_of options) ''remove_text'')"
  have miss: "beautify_miss env r text lang (beauty_options_of options) ?d
      = (case redis_set env r ?d ?t of Inl e \<Rightarrow> Inl e | Inr r' \<Rightarrow> Inr (?t, r'))"
    by (simp add: beautify_miss_def Let_def)
  have run: "beautify env r text lang options
      = (case redis_get env r ?d of
           Inl e \<Rightarrow> Inl e
         | Inr None \<Rightarrow> beautify_miss env r text lang (beauty_options_of options) ?d
         | Inr (Some answer) \<Rightarrow>
             (if answer \<noteq> '''' then Inr (answer, r)
              else beautify_miss env r text lang (beauty_options_of options) ?d))"
    using assms by (simp add: beautify_def Let_def)
  show ?thesis
    using miss run by (rule redis_outcome_cases)
qed

theorem beautify_redis_outcomes_witness:
  "beauty_options_of (Some [''remove_text'' \<mapsto> True]) \<noteq> Map.empty
   \<and> redis_get down_env () (digest_of down_env explanation_text ''python''
        (beauty_options_of (Some [''remove_text'' \<mapsto> True]))) = Inl (RedisError ''Connection refused'')
   \<and> beautify down_env () explanation_text ''python'' (Some [''remove_text'' \<mapsto> True])
        = Inl (RedisError ''Connection refused'')
   \<and> redis_get readonly_env () (digest_of readonly_env explanation_text ''python''
        (beauty_options_of (Some [''remove_text'' \<mapsto> True]))) = Inr None
   \<and> beautify readonly_env () explanation_text ''python'' (Some [''remove_text'' \<mapsto> True])
        = Inl (RedisError ''READONLY'')
   \<and> redis_get plain_env () (digest_of plain_env explanation_text ''python''
        (beauty_options_of (Some [''remove_text'' \<mapsto> True]))) = Inr None
   \<and> beautify plain_env () explanation_text ''python'' (Some [''remove_text'' \<mapsto> True])
        = Inr ('' x = 1\<newline> y = 2\<newline>'', ())
   \<and> redis_get warm_env () (digest_of warm_env explanation_text ''python''
        (beauty_options_of (Some [''remove_text'' \<mapsto> True]))) = Inr (Some ''cached answer'')
   \<and> beautify warm_env () explanation_text ''python'' (Some [''remove_text'' \<mapsto> True])
        = Inr (''cached answer'', ())
   \<and> redis_get blank_env () (digest_of blank_env explanation_text ''python''
        (beauty_options_of (Some [''remove_text'' \<mapsto> True]))) = Inr (Some '''')
   \<and> beautify blank_env () explanation_text ''python'' (Some [''remove_text'' \<mapsto> True])
        = Inr ('' x = 1\<newline> y = 2\<newline>'', ())"
proof -
  let ?options = "Some [''remove_text'' \<mapsto> True]"
  have nonempty: "beauty_options_of ?options \<noteq> Map.empty"
    by (simp add: beauty_options_of_remove_text)
  have down: "redis_get down_env () k = Inl (RedisError ''Connection refused'')" for k
    by (simp add: down_env_def)
  have ro_get: "redis_get readonly_env () k = Inr None" for k
    by (simp add: readonly_env_def plain_env_def)
  have ro_set: "redis_set readonly_env () k v = Inl (RedisError ''READONLY'')" for k v
    by (simp add: readonly_env_def)
  have plain_get: "redis_get plain_env () k = Inr None" for k
    by (simp add: plain_env_def)
  have plain_set: "redis_set plain_env () k v = Inr ()" for k v
    by (simp add: plain_env_def)
  have warm_get: "redis_get warm_env () k = Inr (Some ''cached answer'')" for k
    by (simp add: warm_env_def)
  have blank_get: "redis_get blank_env () k = Inr (Some '''')" for k
    by (simp add: blank_env_def)
  have blank_set: "redis_set blank_env () k v = Inr ()" for k v
    by (simp add: blank_env_def plain_env_def)
  have blank_text: "beautify' blank_env explanation_text ''python'' False True
      = '' x = 1\<newline> y = 2\<newline>''"
    by code_simp
  have 1: "beautify down_env () explanation_text ''python'' ?options
      = Inl (RedisError ''Connection refused'')"
    using beautify_redis_outcomes [OF nonempty, THEN conjunct1, rule_format, OF down] .
  have 2: "beautify readonly_env () explanation_text ''python'' ?options
      = Inl (RedisError ''READONLY'')"
    by (rule beautify_redis_outcomes [OF nonempty, THEN conjunct2, THEN conjunct2, THEN conjunct1,
          rule_format, OF conjI, OF disjI1, OF ro_get ro_set])
  have "beautify plain_env () explanation_text ''python'' ?options
      = Inr (beautify' plain_env explanation_text ''python''
               (flag (beauty_options_of ?options) ''add_comments'')
               (flag (beauty_options_of ?options) ''remove_text''), ())"
    by (rule beautify_redis_outcomes [OF nonempty, THEN conjunct2, THEN conjunct2, THEN conjunct2,
          THEN conjunct1, rule_format, OF conjI, OF disjI1, OF plain_get plain_set])
  then have 3: "beautify plain_env () explanation_text ''python'' ?options
      = Inr ('' x = 1\<newline> y = 2\<newline>'', ())"
    by (simp add: beauty_options_of_remove_text flags_remove_text plain_remove_text)
  have cached: "''cached answer'' \<noteq> ''''"
    by simp
  have 4: "beautify warm_env () explanation_text ''python'' ?options = Inr (''cached answer'', ())"
    by (rule beautify_redis_outcomes [OF nonempty, THEN conjunct2, THEN conjunct1, rule_format,
          OF conjI, OF warm_get cached])
  have "beautify blank_env () explanation_text ''python'' ?options
      = Inr (beautify' blank_env explanation_text ''python''
               (flag (beauty_options_of ?options) ''add_comments'')
               (flag (beauty_options_of ?options) ''remove_text''), ())"
    by (rule beautify_redis_outcomes [OF nonempty, THEN conjunct2, THEN conjunct2, THEN conjunct2,
          THEN conjunct1, rule_format, OF conjI, OF disjI2, OF blank_get blank_set])
  then have 5: "beautify blank_env () explanation_text ''python'' ?options
      = Inr ('' x = 1\<newline> y = 2\<newline>'', ())"
    by (simp add: beauty_options_of_remove_text flags_remove_text blank_text)
  show ?thesis
    using nonempty down ro_get plain_get warm_get blank_get 1 2 3 4 5 by simp
qed

section \<open>Options whose flags are false\<close>

lemma beauty_options_of_add_comments_False:
  "beauty_options_of (Some [''add_comments'' \<mapsto> False]) = [''add_comments'' \<mapsto> False]"
  by (auto simp: beauty_options_of_def restrict_map_def fun_eq_iff)

lemma beauty_options_of_style:
  "beauty_options_of (Some [''style'' \<mapsto> False]) = Map.empty"
  by (auto simp: beauty_options_of_def restrict_map_def fun_eq_iff)

lemma plain_passthrough_code_line:
  "beautify' plain_env ''    x = 1'' ''python'' False False = ''     x = 1''"
  by code_simp

text \<open>
  C10, as the code has it. What decides is the dictionary restricted to the keys
  \<open>add_comments\<close> and \<open>remove_text\<close>. When it is not empty and both flags are false, then on
  a lookup that finds nothing and a store that succeeds \<open>beautify\<close> returns the text of
  \<open>_beautify\<close> with neither flag: the lines after cleanup, classification and reflow
  without unindent, joined with line feeds, where the reflow puts one space before every
  non-empty code line. When the restricted dictionary is empty (options missing, empty, or
  holding other keys only) \<open>beautify\<close> returns its input and leaves Redis alone.
\<close>

theorem false_flags_run_passthrough:
  "(beauty_options_of options \<noteq> Map.empty
      \<and> \<not> flag (beauty_options_of options) ''add_comments''
      \<and> \<not> flag (beauty_options_of options) ''remove_text''
      \<and> redis_get env r (digest_of env text lang (beauty_options_of options)) = Inr None
      \<and> redis_set env r (digest_of env text lang (beauty_options_of options))
           (beautify' env text lang False False) = Inr r'
      \<longrightarrow> beautify env r text lang options = Inr (beautify' env text lang False False, r'))
   \<and> beautify' env text lang False False
       = join ''\<newline>'' (map snd (wrap_lines env
           (zip (classify_lines (cleanup_lines (text_lines text))) (cleanup_lines (text_lines text)))
           (UBool False)))
   \<and> wrap_line env (UBool False) (1, line) = [(1, if line = '''' then '''' else CHR '' '' # line)]
   \<and> (beauty_options_of options = Map.empty \<longrightarrow> beautify env r text lang options = Inr (text, r))
   \<and> beautify env r text lang None = Inr (text, r)
   \<and> beautify env r text lang (Some Map.empty) = Inr (text, r)"
  by (simp add: beautify_def beautify_miss_def Let_def beautify'_def beautify_lines_classes_def
      beauty_options_of_def wrap_line_def unindent_code_def)

theorem false_flags_run_passthrough_witness:
  "beauty_options_of (Some [''add_comments'' \<mapsto> False]) \<noteq> Map.empty
   \<and> \<not> flag (beauty_options_of (Some [''add_comments'' \<mapsto> False])) ''add_comments''
   \<and> \<not> flag (beauty_options_of (Some [''add_comments'' \<mapsto> False])) ''remove_text''
   \<and> beautify plain_env () ''    x = 1'' ''python'' (Some [''add_comments'' \<mapsto> False])
        = Inr (''     x = 1'', ())
   \<and> beauty_options_of (Some [''style'' \<mapsto> False]) = Map.empty
   \<and> beautify plain_env () ''    x = 1'' ''python'' (Some [''style'' \<mapsto> False])
        = Inr (''    x = 1'', ())"
proof -
  let ?options = "Some [''add_comments'' \<mapsto> False]"
  have nonempty: "beauty_options_of ?options \<noteq> Map.empty"
    by (simp add: beauty_options_of_add_comments_False)
  have flags: "\<not> flag (beauty_options_of ?options) ''add_comments''"
    "\<not> flag (beauty_options_of ?options) ''remove_text''"
    by (simp_all add: beauty_options_of_add_comments_False flag_def)
  have get: "redis_get plain_env () k = Inr None" for k
    by (simp add: plain_env_def)
  have set: "redis_set plain_env () k v = Inr ()" for k v
    by (simp add: plain_env_def)
  have "beautify plain_env () ''    x = 1'' ''python'' ?options
      = Inr (beautify' plain_env ''    x = 1'' ''python'' False False, ())"
    using false_flags_run_passthrough
      [of ?options plain_env "()" "''    x = 1''" "''python''" "()"]
      nonempty flags get set by blast
  then have 1: "beautify plain_env () ''    x = 1'' ''python'' ?options = Inr (''     x = 1'', ())"
    by (simp only: plain_passthrough_code_line)
  have 2: "beautify plain_env () ''    x = 1'' ''python'' (Some [''style'' \<mapsto> False])
      = Inr (''    x = 1'', ())"
    using false_flags_run_passthrough
      [of "Some [''style'' \<mapsto> False]" plain_env "()" "''    x = 1''" "''python''" "()"]
      beauty_options_of_style by blast
  show ?thesis
    using nonempty flags 1 2 beauty_options_of_style by simp
qed

text \<open>
  A dictionary that is not empty and whose flags are both false, here one that holds
  another key only, gives the input back, although the text of \<open>_beautify\<close> with neither
  flag differs from the input.
\<close>

theorem other_keys_only_is_identity:
  "beautify plain_env () ''    x = 1'' ''python'' (Some [''style'' \<mapsto> False])
     = Inr (''    x = 1'', ())
   \<and> [''style'' \<mapsto> False] \<noteq> Map.empty
   \<and> beautify' plain_env ''    x = 1'' ''python'' False False \<noteq> ''    x = 1''"
proof -
  have "beautify plain_env () ''    x = 1'' ''python'' (Some [''style'' \<mapsto> False])
      = Inr (''    x = 1'', ())"
    by (simp add: beautify_def beauty_options_of_style)
  moreover have "beautify' plain_env ''    x = 1'' ''python'' False False \<noteq> ''    x = 1''"
    by (simp add: plain_passthrough_code_line)
  ultimately show ?thesis
    by simp
qed

section \<open>The two entry points\<close>

text \<open>
  The data flow as the specification words it for the block listing: Cleanup Pass, Line
  Classifier, Reflow Engine, Block Segmenter. It is \<open>code_blocks\<close> with \<open>_cleanup_lines\<close>
  put before the classifier, to compare the source with.
\<close>

definition code_blocks_after_cleanup ::
  "'r collaborators \<Rightarrow> string \<Rightarrow> bool \<Rightarrow> unindent \<Rightarrow> (int \<times> string) list"
  where
  "code_blocks_after_cleanup env text wrap u =
     (let lines = cleanup_lines (text_lines text);
          lines_classes = zip (classify_lines lines) lines;
          lines_classes = (if wrap then wrap_lines env lines_classes u else lines_classes);
          lines_blocks = groupby fst lines_classes
      in map (\<lambda>x. (fst x, join [CHR 0x0A] (map snd (snd x)) @ [CHR 0x0A])) lines_blocks)"

text \<open>
  C5, as the code has it. \<open>_beautify\<close> cleans the lines up, classifies them and reflows
  them. \<open>code_blocks\<close> classifies the lines as they are split, without cleanup, and reflows
  them only when \<open>wrap_lines\<close> is set. The two agree on their classified and reflowed lines
  when the cleanup leaves the lines of the text as they are, and \<open>code_blocks\<close> then
  returns what it would return after a cleanup.
\<close>

theorem entry_points_share_classify_and_reflow:
  "beautify_lines_classes env text u
     = wrap_lines env (zip (classify_lines (cleanup_lines (text_lines text)))
         (cleanup_lines (text_lines text))) u
   \<and> code_blocks_lines_classes env text True u
     = wrap_lines env (zip (classify_lines (text_lines text)) (text_lines text)) u
   \<and> code_blocks_lines_classes env text False u
     = zip (classify_lines (text_lines text)) (text_lines text)
   \<and> (cleanup_lines (text_lines text) = text_lines text
        \<longrightarrow> code_blocks_lines_classes env text True u = beautify_lines_classes env text u
          \<and> code_blocks env text True u = code_blocks_after_cleanup env text True u)"
  by (simp add: beautify_lines_classes_def code_blocks_lines_classes_def code_blocks_def
      code_blocks_after_cleanup_def Let_def)

theorem entry_points_share_classify_and_reflow_witness:
  "cleanup_lines (text_lines explanation_text) = text_lines explanation_text
   \<and> code_blocks_lines_classes plain_env explanation_text True (UBool True)
       = beautify_lines_classes plain_env explanation_text (UBool True)
   \<and> code_blocks plain_env explanation_text True (UBool True)
       = code_blocks_after_cleanup plain_env explanation_text True (UBool True)"
proof -
  have clean: "cleanup_lines (text_lines explanation_text) = text_lines explanation_text"
    by code_simp
  then show ?thesis
    using entry_points_share_classify_and_reflow [of plain_env explanation_text "UBool True"]
    by blast
qed

text \<open>
  On a text that starts with an empty line \<open>code_blocks\<close> keeps the empty line in its
  first block; after a cleanup the block would start with the first line that is not
  blank.
\<close>

theorem code_blocks_skips_cleanup:
  "code_blocks plain_env ''\<newline>abc'' False (UBool False) = [(0, ''\<newline>abc\<newline>'')]
   \<and> code_blocks_after_cleanup plain_env ''\<newline>abc'' False (UBool False) = [(0, ''abc\<newline>'')]
   \<and> code_blocks plain_env ''\<newline>abc'' False (UBool False)
       \<noteq> code_blocks_after_cleanup plain_env ''\<newline>abc'' False (UBool False)"
  by code_simp

section \<open>The cleanup pass\<close>

text \<open>
  For the proofs, the three steps of \<open>_cleanup_lines\<close> are named: a line is \<open>blank\<close> when
  nothing is left of it after \<open>strip()\<close>, \<open>trim_blank\<close> is what the two \<open>while\<close> loops and
  the two slices compute, and \<open>squeeze_blank\<close> is the \<open>groupby\<close> expression. The lemma
  \<open>cleanup_lines_eq\<close> shows that \<open>cleanup_lines\<close> is the one after the other.
\<close>

definition blank :: "string \<Rightarrow> bool" where
  "blank l \<longleftrightarrow> strip l = ''''"

definition trim_blank :: "string list \<Rightarrow> string list" where
  "trim_blank ls = rev (dropWhile blank (rev (dropWhile blank ls)))"

definition squeeze_blank :: "string list \<Rightarrow> string list" where
  "squeeze_blank ls =
     concat (map (\<lambda>x. if fst x then snd x else ['''']) (groupby (\<lambda>x. strip x \<noteq> '''') ls))"

definition no_double_blank :: "string list \<Rightarrow> bool" where
  "no_double_blank ls \<longleftrightarrow> successively (\<lambda>a b. \<not> (blank a \<and> blank b)) ls"

lemma blank_empty: "blank ''''"
  by (simp add: blank_def strip_def)

lemma skip_start_drop:
  "i \<le> length ls \<Longrightarrow> drop (skip_start ls i) ls = dropWhile blank (drop i ls)"
proof (induction ls i rule: skip_start.induct)
  case (1 ls i)
  show ?case
  proof (cases "i < length ls \<and> strip (ls ! i) = ''''")
    case True
    then have step: "skip_start ls i = skip_start ls (i + 1)"
      by (subst skip_start.simps) auto
    have "drop i ls = ls ! i # drop (Suc i) ls"
      using True by (simp add: Cons_nth_drop_Suc)
    then have "dropWhile blank (drop i ls) = dropWhile blank (drop (i + 1) ls)"
      using True by (simp add: blank_def)
    moreover have "drop (skip_start ls (i + 1)) ls = dropWhile blank (drop (i + 1) ls)"
      using True by (intro "1.IH") simp_all
    ultimately show ?thesis
      by (simp add: step)
  next
    case False
    then have stop: "skip_start ls i = i"
      by (subst skip_start.simps) auto
    show ?thesis
    proof (cases "i < length ls")
      case True
      with False have "\<not> blank (ls ! i)"
        by (simp add: blank_def)
      moreover have "drop i ls = ls ! i # drop (Suc i) ls"
        using True by (simp add: Cons_nth_drop_Suc)
      ultimately show ?thesis
        by (simp add: stop)
    next
      case False
      then show ?thesis
        by (simp add: stop)
    qed
  qed
qed

lemma skip_end_take:
  "- 1 \<le> e \<Longrightarrow> e < int (length ls)
    \<Longrightarrow> take (nat (skip_end ls e + 1)) ls = rev (dropWhile blank (rev (take (nat (e + 1)) ls)))"
proof (induction ls e rule: skip_end.induct)
  case (1 ls e)
  show ?case
  proof (cases "e \<ge> 0 \<and> strip (ls ! nat e) = ''''")
    case True
    then have step: "skip_end ls e = skip_end ls (e - 1)"
      by (subst skip_end.simps) auto
    have suc: "nat (e + 1) = Suc (nat e)"
      using True by arith
    have "nat e < length ls"
      using True "1.prems" by arith
    then have "take (nat (e + 1)) ls = take (nat e) ls @ [ls ! nat e]"
      unfolding suc by (rule take_Suc_conv_app_nth)
    then have "dropWhile blank (rev (take (nat (e + 1)) ls)) = dropWhile blank (rev (take (nat e) ls))"
      using True by (simp add: blank_def)
    moreover have "take (nat (skip_end ls (e - 1) + 1)) ls
        = rev (dropWhile blank (rev (take (nat (e - 1 + 1)) ls)))"
      using True "1.prems" by (intro "1.IH") simp_all
    ultimately show ?thesis
      by (simp add: step)
  next
    case False
    then have stop: "skip_end ls e = e"
      by (subst skip_end.simps) auto
    show ?thesis
    proof (cases "e \<ge> 0")
      case True
      with False have nb: "\<not> blank (ls ! nat e)"
        by (simp add: blank_def)
      have suc: "nat (e + 1) = Suc (nat e)"
        using True by arith
      have "nat e < length ls"
        using True "1.prems" by arith
      then have "take (nat (e + 1)) ls = take (nat e) ls @ [ls ! nat e]"
        unfolding suc by (rule take_Suc_conv_app_nth)
      then show ?thesis
        using nb by (simp add: stop)
    next
      case False
      with "1.prems" have e: "e = - 1"
        by simp
      with stop have "skip_end ls (- 1) = - 1"
        by simp
      then show ?thesis
        unfolding e by simp
    qed
  qed
qed

lemma squeeze_blank_Nil: "squeeze_blank [] = []"
  by (simp add: squeeze_blank_def)

lemma trim_blank_Nil: "dropWhile blank ls = [] \<Longrightarrow> trim_blank ls = []"
  unfolding trim_blank_def by (simp only: rev.simps dropWhile.simps)

lemma cleanup_lines_eq: "cleanup_lines ls = squeeze_blank (trim_blank ls)"
proof -
  let ?d = "dropWhile blank ls"
  have l1: "drop (skip_start ls 0) ls = ?d"
    using skip_start_drop [of 0 ls] by simp
  have "take (nat (skip_end ?d (int (length ?d) - 1) + 1)) ?d
      = rev (dropWhile blank (rev (take (nat (int (length ?d) - 1 + 1)) ?d)))"
    by (rule skip_end_take) simp_all
  then have l2: "take (nat (skip_end ?d (int (length ?d) - 1) + 1)) ?d = trim_blank ls"
    unfolding trim_blank_def by simp
  have "cleanup_lines ls =
      (if ls = [] then ls else if ?d = [] then ?d
       else if trim_blank ls = [] then trim_blank ls else squeeze_blank (trim_blank ls))"
    unfolding cleanup_lines_def Let_def squeeze_blank_def [symmetric] by (simp only: l1 l2)
  also have "\<dots> = squeeze_blank (trim_blank ls)"
  proof (cases "?d = []")
    case True
    then have "trim_blank ls = []"
      by (rule trim_blank_Nil)
    then show ?thesis
      using True by (auto simp: squeeze_blank_Nil)
  next
    case False
    then have "ls \<noteq> []"
      by auto
    then show ?thesis
      using False by (cases "trim_blank ls = []") (auto simp: squeeze_blank_Nil)
  qed
  finally show ?thesis .
qed

lemma squeeze_blank_Cons:
  "squeeze_blank (x # xs) =
     (if blank x then '''' # squeeze_blank (dropWhile blank xs)
      else (x # takeWhile (\<lambda>y. \<not> blank y) xs) @ squeeze_blank (dropWhile (\<lambda>y. \<not> blank y) xs))"
proof -
  have key: "(\<lambda>y. (strip y \<noteq> '''') = (strip x \<noteq> ''''))
      = (if blank x then blank else (\<lambda>y. \<not> blank y))"
    by (auto simp: blank_def fun_eq_iff)
  show ?thesis
    unfolding squeeze_blank_def groupby.simps key by (simp add: blank_def)
qed

lemma squeeze_blank_induct [case_names Nil Blank Line]:
  assumes "P []"
    and "\<And>x xs. blank x \<Longrightarrow> P (dropWhile blank xs) \<Longrightarrow> P (x # xs)"
    and "\<And>x xs. \<not> blank x \<Longrightarrow> P (dropWhile (\<lambda>y. \<not> blank y) xs) \<Longrightarrow> P (x # xs)"
  shows "P ls"
proof (induction ls rule: length_induct)
  case (1 ls)
  show ?case
  proof (cases ls)
    case Nil
    then show ?thesis using assms(1) by simp
  next
    case (Cons x xs)
    have smaller: "length (dropWhile Q xs) < length ls" for Q
      using length_dropWhile_le [of Q xs] Cons by simp
    show ?thesis
    proof (cases "blank x")
      case True
      then show ?thesis
        unfolding Cons using 1 smaller Cons by (intro assms(2)) auto
    next
      case False
      then show ?thesis
        unfolding Cons using 1 smaller Cons by (intro assms(3)) auto
    qed
  qed
qed

lemma squeeze_blank_Nil_iff: "squeeze_blank ls = [] \<longleftrightarrow> ls = []"
  by (cases ls) (simp_all add: squeeze_blank_Nil squeeze_blank_Cons)

lemma hd_squeeze_blank: "ls \<noteq> [] \<Longrightarrow> \<not> blank (hd ls) \<Longrightarrow> hd (squeeze_blank ls) = hd ls"
  by (cases ls) (simp_all add: squeeze_blank_Cons)

lemma squeeze_blank_elems: "l \<in> set (squeeze_blank ls) \<Longrightarrow> blank l \<Longrightarrow> l = ''''"
proof (induction ls rule: squeeze_blank_induct)
  case Nil
  then show ?case by (simp add: squeeze_blank_Nil)
next
  case (Blank x xs)
  then show ?case by (auto simp: squeeze_blank_Cons)
next
  case (Line x xs)
  then show ?case by (auto simp: squeeze_blank_Cons dest: set_takeWhileD)
qed

lemma lines_no_double_blank: "\<forall>a\<in>set ls. \<not> blank a \<Longrightarrow> no_double_blank ls"
  unfolding no_double_blank_def by (induction ls) (auto simp: successively_Cons)

lemma last_dropWhile: "dropWhile Q xs \<noteq> [] \<Longrightarrow> last (dropWhile Q xs) = last xs"
proof -
  assume "dropWhile Q xs \<noteq> []"
  then have "last (takeWhile Q xs @ dropWhile Q xs) = last (dropWhile Q xs)"
    by (rule last_appendR)
  then show ?thesis by simp
qed

lemma no_double_blank_dropWhile: "no_double_blank xs \<Longrightarrow> no_double_blank (dropWhile Q xs)"
proof -
  assume "no_double_blank xs"
  then have "no_double_blank (takeWhile Q xs @ dropWhile Q xs)"
    by simp
  then show ?thesis
    unfolding no_double_blank_def successively_append_iff by blast
qed

lemma no_double_blank_append:
  "no_double_blank xs \<Longrightarrow> no_double_blank ys \<Longrightarrow> \<not> blank (last xs)
    \<Longrightarrow> no_double_blank (xs @ ys)"
  unfolding no_double_blank_def successively_append_iff by auto

lemma squeeze_blank_no_double: "no_double_blank (squeeze_blank ls)"
proof (induction ls rule: squeeze_blank_induct)
  case Nil
  then show ?case by (simp add: squeeze_blank_Nil no_double_blank_def)
next
  case (Blank x xs)
  let ?rest = "dropWhile blank xs"
  have "squeeze_blank ?rest = [] \<or> \<not> blank (hd (squeeze_blank ?rest))"
  proof (cases "?rest = []")
    case True
    then show ?thesis by (simp only: squeeze_blank_Nil simp_thms)
  next
    case False
    then have "\<not> blank (hd ?rest)"
      by (rule hd_dropWhile)
    then show ?thesis
      using False by (simp add: hd_squeeze_blank)
  qed
  then show ?case
    using Blank by (auto simp: squeeze_blank_Cons no_double_blank_def successively_Cons)
next
  case (Line x xs)
  let ?group = "x # takeWhile (\<lambda>y. \<not> blank y) xs"
  have lines: "\<forall>a\<in>set ?group. \<not> blank a"
    using Line(1) by (auto dest: set_takeWhileD)
  then have "no_double_blank ?group"
    by (rule lines_no_double_blank)
  moreover have "\<not> blank (last ?group)"
    using lines last_in_set [of ?group] by blast
  ultimately have "no_double_blank (?group @ squeeze_blank (dropWhile (\<lambda>y. \<not> blank y) xs))"
    using Line(2) by (intro no_double_blank_append)
  then show ?case
    unfolding squeeze_blank_Cons using Line(1) by simp
qed

lemma last_squeeze_blank: "ls \<noteq> [] \<Longrightarrow> \<not> blank (last ls) \<Longrightarrow> last (squeeze_blank ls) = last ls"
proof (induction ls rule: squeeze_blank_induct)
  case Nil
  then show ?case by simp
next
  case (Blank x xs)
  let ?rest = "dropWhile blank xs"
  from Blank(1,4) have xs: "xs \<noteq> []"
    by auto
  then have last_xs: "last (x # xs) = last xs"
    by simp
  then have "\<not> blank (last xs)"
    using Blank(4) by simp
  then have "\<exists>a\<in>set xs. \<not> blank a"
    using xs last_in_set by blast
  then have rest: "?rest \<noteq> []"
    by simp
  then have "last ?rest = last xs"
    by (rule last_dropWhile)
  then have "last (squeeze_blank ?rest) = last xs"
    using Blank(2) rest \<open>\<not> blank (last xs)\<close> by simp
  moreover have "squeeze_blank ?rest \<noteq> []"
    using rest by (simp add: squeeze_blank_Nil_iff)
  ultimately show ?case
    using Blank(1) last_xs by (simp add: squeeze_blank_Cons)
next
  case (Line x xs)
  let ?rest = "dropWhile (\<lambda>y. \<not> blank y) xs"
  show ?case
  proof (cases "?rest = []")
    case True
    then have tw: "takeWhile (\<lambda>y. \<not> blank y) xs = xs"
      by simp
    have "squeeze_blank (x # xs) = (x # takeWhile (\<lambda>y. \<not> blank y) xs) @ squeeze_blank ?rest"
      using Line(1) by (simp add: squeeze_blank_Cons)
    also have "\<dots> = x # xs"
      unfolding tw True squeeze_blank_Nil by simp
    finally show ?thesis
      by simp
  next
    case False
    then have xs: "xs \<noteq> []"
      by auto
    have "last ?rest = last xs"
      using False by (rule last_dropWhile)
    then have "last (squeeze_blank ?rest) = last xs"
      using Line(2,4) False xs by simp
    moreover have "squeeze_blank ?rest \<noteq> []"
      using False by (simp add: squeeze_blank_Nil_iff)
    ultimately show ?thesis
      using Line(1) xs by (simp add: squeeze_blank_Cons del: dropWhile_eq_Nil_conv)
  qed
qed

lemma squeeze_blank_fixed:
  "\<forall>l\<in>set ls. blank l \<longrightarrow> l = '''' \<Longrightarrow> no_double_blank ls \<Longrightarrow> squeeze_blank ls = ls"
proof (induction ls rule: squeeze_blank_induct)
  case Nil
  then show ?case by (simp add: squeeze_blank_Nil)
next
  case (Blank x xs)
  have x: "x = ''''"
    using Blank(1,3) by simp
  have nd: "no_double_blank xs"
    using Blank(4) by (auto simp: no_double_blank_def successively_Cons)
  have "xs = [] \<or> \<not> blank (hd xs)"
    using Blank(1,4) by (auto simp: no_double_blank_def successively_Cons)
  then have rest: "dropWhile blank xs = xs"
    by (cases xs) auto
  have "squeeze_blank xs = xs"
    using Blank(2,3) nd unfolding rest by simp
  then show ?case
    using Blank(1) x by (simp add: squeeze_blank_Cons rest)
next
  case (Line x xs)
  let ?rest = "dropWhile (\<lambda>y. \<not> blank y) xs"
  have "no_double_blank xs"
    using Line(4) by (auto simp: no_double_blank_def successively_Cons)
  then have "no_double_blank ?rest"
    by (rule no_double_blank_dropWhile)
  moreover have "\<forall>l\<in>set ?rest. blank l \<longrightarrow> l = ''''"
    using Line(3) by (auto dest: set_dropWhileD)
  ultimately have "squeeze_blank ?rest = ?rest"
    by (rule Line(2) [rotated])
  then show ?case
    using Line(1) by (simp add: squeeze_blank_Cons)
qed

lemma trim_blank_ends:
  "trim_blank ls = [] \<or> \<not> blank (hd (trim_blank ls)) \<and> \<not> blank (last (trim_blank ls))"
proof (cases "trim_blank ls = []")
  case True
  then show ?thesis by simp
next
  case False
  let ?d = "dropWhile blank ls"
  let ?e = "dropWhile blank (rev ?d)"
  have e: "?e \<noteq> []"
    using False by (simp add: trim_blank_def)
  then have "\<not> blank (hd ?e)"
    by (rule hd_dropWhile)
  then have last: "\<not> blank (last (trim_blank ls))"
    using e by (simp add: trim_blank_def last_rev)
  have d: "?d \<noteq> []"
  proof
    assume "?d = []"
    then have "?e = []"
      by (simp only: rev.simps dropWhile.simps)
    with e show False
      by contradiction
  qed
  have "rev ?d = takeWhile blank (rev ?d) @ ?e"
    by simp
  then have "?d = rev ?e @ rev (takeWhile blank (rev ?d))"
    by (metis rev_append rev_rev_ident)
  then have "hd ?d = hd (rev ?e)"
    using e by (metis hd_append2 rev_is_Nil_conv)
  moreover have "\<not> blank (hd ?d)"
    using d by (rule hd_dropWhile)
  ultimately have "\<not> blank (hd (trim_blank ls))"
    by (simp add: trim_blank_def)
  then show ?thesis
    using last by simp
qed

lemma trim_blank_fixed:
  assumes "ls = [] \<or> \<not> blank (hd ls) \<and> \<not> blank (last ls)"
  shows "trim_blank ls = ls"
proof (cases ls)
  case Nil
  then show ?thesis by (simp add: trim_blank_def)
next
  case (Cons x xs)
  with assms have "\<not> blank x" and nl: "\<not> blank (last ls)"
    by simp_all
  then have d: "dropWhile blank ls = ls"
    using Cons by simp
  have "ls = butlast ls @ [last ls]"
    using Cons by simp
  then have r: "rev ls = last ls # rev (butlast ls)"
    by (metis rev.simps(2) rev_append rev_rev_ident rev_singleton_conv append_Cons append_Nil)
  have "dropWhile blank (last ls # rev (butlast ls)) = last ls # rev (butlast ls)"
    using nl by simp
  then have "dropWhile blank (rev ls) = rev ls"
    unfolding r .
  then show ?thesis
    by (simp add: trim_blank_def d)
qed

lemma cleanup_lines_tidy:
  "(cleanup_lines L = [] \<or> \<not> blank (hd (cleanup_lines L)) \<and> \<not> blank (last (cleanup_lines L)))
   \<and> (\<forall>l\<in>set (cleanup_lines L). blank l \<longrightarrow> l = '''')
   \<and> no_double_blank (cleanup_lines L)"
proof -
  let ?t = "trim_blank L"
  have ends: "squeeze_blank ?t = [] \<or> \<not> blank (hd (squeeze_blank ?t)) \<and> \<not> blank (last (squeeze_blank ?t))"
  proof (cases "?t = []")
    case True
    then show ?thesis by (simp add: squeeze_blank_Nil)
  next
    case False
    with trim_blank_ends [of L] have "\<not> blank (hd ?t)" and "\<not> blank (last ?t)"
      by simp_all
    then show ?thesis
      using False by (simp add: hd_squeeze_blank last_squeeze_blank)
  qed
  show ?thesis
    unfolding cleanup_lines_eq using ends squeeze_blank_elems [of _ ?t] squeeze_blank_no_double [of ?t]
    by blast
qed

lemma cleanup_lines_idempotent: "cleanup_lines (cleanup_lines L) = cleanup_lines L"
proof -
  let ?c = "cleanup_lines L"
  have "trim_blank ?c = ?c"
    using cleanup_lines_tidy [of L] by (intro trim_blank_fixed) blast
  moreover have "squeeze_blank ?c = ?c"
    using cleanup_lines_tidy [of L] by (intro squeeze_blank_fixed) blast+
  ultimately show ?thesis
    by (simp add: cleanup_lines_eq [of ?c])
qed

lemma cleanup_lines_all_blank: "\<forall>l\<in>set L. strip l = '''' \<Longrightarrow> cleanup_lines L = []"
proof -
  assume "\<forall>l\<in>set L. strip l = ''''"
  then have "dropWhile blank L = []"
    by (simp add: blank_def)
  then have "trim_blank L = []"
    by (rule trim_blank_Nil)
  then show ?thesis
    by (simp add: cleanup_lines_eq squeeze_blank_Nil)
qed

text \<open>
  C3. The cleanup pass is idempotent. Its result, when not empty, starts and ends with a
  line that is not blank; no two neighbouring lines of it are both blank (in particular
  not both empty); on a list of blank lines only, and on the empty list, it returns the
  empty list. The model has no error value for \<open>_cleanup_lines\<close>: every index it reads
  is below the length of the list.
\<close>

theorem cleanup_lines_idempotent_and_tidy:
  "cleanup_lines (cleanup_lines L) = cleanup_lines L
   \<and> (cleanup_lines L \<noteq> []
        \<longrightarrow> strip (hd (cleanup_lines L)) \<noteq> '''' \<and> strip (last (cleanup_lines L)) \<noteq> '''')
   \<and> (\<forall>i. Suc i < length (cleanup_lines L)
        \<longrightarrow> \<not> (strip (cleanup_lines L ! i) = '''' \<and> strip (cleanup_lines L ! Suc i) = ''''))
   \<and> (\<forall>i. Suc i < length (cleanup_lines L)
        \<longrightarrow> \<not> (cleanup_lines L ! i = '''' \<and> cleanup_lines L ! Suc i = ''''))
   \<and> ((\<forall>l\<in>set L. strip l = '''') \<longrightarrow> cleanup_lines L = [])
   \<and> cleanup_lines [] = []"
proof -
  let ?c = "cleanup_lines L"
  have ends: "?c \<noteq> [] \<longrightarrow> strip (hd ?c) \<noteq> '''' \<and> strip (last ?c) \<noteq> ''''"
    using cleanup_lines_tidy [of L] by (auto simp: blank_def)
  have "successively (\<lambda>a b. \<not> (blank a \<and> blank b)) ?c"
    using cleanup_lines_tidy [of L] by (simp add: no_double_blank_def)
  then have pairs: "\<forall>i. Suc i < length ?c \<longrightarrow> \<not> (blank (?c ! i) \<and> blank (?c ! Suc i))"
    by (simp only: successively_conv_nth)
  then have stripped: "\<forall>i. Suc i < length ?c
      \<longrightarrow> \<not> (strip (?c ! i) = '''' \<and> strip (?c ! Suc i) = '''')"
    by (simp add: blank_def)
  have empties: "\<forall>i. Suc i < length ?c \<longrightarrow> \<not> (?c ! i = '''' \<and> ?c ! Suc i = '''')"
    using pairs blank_empty by metis
  have blanks: "(\<forall>l\<in>set L. strip l = '''') \<longrightarrow> ?c = []"
    using cleanup_lines_all_blank [of L] by blast
  have nil: "cleanup_lines [] = []"
    by (simp add: cleanup_lines_def)
  show ?thesis
    using cleanup_lines_idempotent [of L] ends stripped empties blanks nil by blast
qed

theorem cleanup_lines_idempotent_and_tidy_witness:
  "cleanup_lines ['''', ''a'', '' '', '''', ''b'', ''  ''] = [''a'', '''', ''b'']
   \<and> cleanup_lines [''a'', '''', ''b''] = [''a'', '''', ''b'']
   \<and> strip (hd (cleanup_lines ['''', ''a'', '' '', '''', ''b'', ''  ''])) \<noteq> ''''
   \<and> strip (last (cleanup_lines ['''', ''a'', '' '', '''', ''b'', ''  ''])) \<noteq> ''''
   \<and> Suc 1 < length (cleanup_lines ['''', ''a'', '' '', '''', ''b'', ''  ''])
   \<and> \<not> (strip (cleanup_lines ['''', ''a'', '' '', '''', ''b'', ''  ''] ! 1) = ''''
        \<and> strip (cleanup_lines ['''', ''a'', '' '', '''', ''b'', ''  ''] ! Suc 1) = '''')
   \<and> strip '''' = '''' \<and> strip ''  '' = ''''
   \<and> cleanup_lines ['''', ''  ''] = []"
proof -
  let ?L = "['''', ''a'', '' '', '''', ''b'', ''  '']"
  have c: "cleanup_lines ?L = [''a'', '''', ''b'']"
    by code_simp
  have s: "strip '''' = ''''" "strip ''  '' = ''''"
    by code_simp+
  note t = cleanup_lines_idempotent_and_tidy [of ?L]
  have 1: "cleanup_lines [''a'', '''', ''b''] = [''a'', '''', ''b'']"
    using t unfolding c by blast
  have ne: "cleanup_lines ?L \<noteq> []"
    unfolding c by simp
  have 2: "strip (hd (cleanup_lines ?L)) \<noteq> ''''" "strip (last (cleanup_lines ?L)) \<noteq> ''''"
    using t ne by blast+
  have len: "Suc 1 < length (cleanup_lines ?L)"
    unfolding c by simp
  have 3: "\<not> (strip (cleanup_lines ?L ! 1) = '''' \<and> strip (cleanup_lines ?L ! Suc 1) = '''')"
    using t len by blast
  have "\<forall>l\<in>set ['''', ''  '']. strip l = ''''"
    using s by simp
  then have 4: "cleanup_lines ['''', ''  ''] = []"
    using cleanup_lines_idempotent_and_tidy [of "['''', ''  '']"] by blast
  show ?thesis
    using c 1 2 len 3 s 4 by blast
qed

end
